theory Spec2Isabelle
  imports Complex_Main
begin

section \<open>The world the notebook acts on\<close>

text \<open>
  The notebook \<^verbatim>\<open>00_data_prep.ipynb\<close> has two functions with logic of their own:
  \<^verbatim>\<open>download_nyc_taxi_data\<close> (one HTTP retrieval per month and data type) and
  \<^verbatim>\<open>write_csv_with_size_limit\<close> (chunked CSV export under a size limit).
  Both act only through effects: the network, the file system, standard output and the
  module-level logger. The model passes these around as one explicit state.

  Python exceptions are values. \<^verbatim>\<open>except Exception\<close> catches every class derived
  from \<^verbatim>\<open>Exception\<close>; \<^verbatim>\<open>KeyboardInterrupt\<close> derives from \<^verbatim>\<open>BaseException\<close>
  only and passes through such a handler.
\<close>

datatype exn =
    OSError
  | FileNotFoundError
  | UnboundLocalError
  | ConnectionError
  | OverflowError
  | KeyboardInterrupt

fun is_Exception :: "exn \<Rightarrow> bool" where
  "is_Exception KeyboardInterrupt = False"
| "is_Exception _ = True"

record response =
  status_code :: int
  content :: string

text \<open>
  The lines the code prints and the records it logs, with the interpolated values kept
  and the fixed wording dropped: \<open>Downloading f\<close> for \<^verbatim>\<open>Downloading {file_name}...\<close>,
  \<open>Downloaded f\<close> for \<^verbatim>\<open>Successfully downloaded {file_name}\<close>, \<open>Failed f c\<close> for
  \<^verbatim>\<open>Failed to download {file_name}. Status code: {status_code}\<close>; \<open>ReachedLimit\<close>,
  \<open>FinalSize\<close> and \<open>RowsWritten\<close> for the three \<^verbatim>\<open>logger.info\<close> messages of the export
  and \<open>WriteError\<close> for its \<^verbatim>\<open>logger.error\<close> message, which carries the limit and the
  exception. Sizes are logged in megabytes; the rounding of the format \<^verbatim>\<open>:.2f\<close> is not
  modelled.
\<close>

datatype out_line =
    Downloading string
  | Downloaded string
  | Failed string int

datatype log_record =
    ReachedLimit rat
  | FinalSize rat
  | RowsWritten nat nat
  | WriteError rat exn

text \<open>
  \<open>files\<close> maps a path to the bytes stored there, \<open>remote\<close> is what
  \<^verbatim>\<open>requests.get\<close> does for a URL (a response, or a transport error raised), and
  \<open>faults\<close> is the fate of the coming file-system calls, one entry per call:
  \<open>None\<close> lets the call go through, \<open>Some e\<close> makes it raise \<open>e\<close>. Past the end
  of the list every call goes through. A call that raises leaves the files as they were.
\<close>

record world =
  files :: "string \<rightharpoonup> string"
  dirs :: "string set"
  remote :: "string \<Rightarrow> exn + response"
  stdout :: "out_line list"
  logs :: "log_record list"
  faults :: "exn option list"

type_synonym 'a io = "world \<Rightarrow> (exn + 'a) \<times> world"

definition io_fault :: "world \<Rightarrow> exn option \<times> world" where
  "io_fault w = (case faults w of [] \<Rightarrow> (None, w) | f # fs \<Rightarrow> (f, w\<lparr>faults := fs\<rparr>))"

definition logger_info :: "log_record \<Rightarrow> world \<Rightarrow> world" where
  "logger_info r w = w\<lparr>logs := logs w @ [r]\<rparr>"

definition logger_error :: "log_record \<Rightarrow> world \<Rightarrow> world" where
  "logger_error r w = w\<lparr>logs := logs w @ [r]\<rparr>"

definition getsize :: "string \<Rightarrow> nat io" where
  \<comment> \<open>\<^verbatim>\<open>os.path.getsize\<close>: raises \<^verbatim>\<open>FileNotFoundError\<close> when nothing is at the path.\<close>
  "getsize path w =
     (case io_fault w of
        (Some e, w') \<Rightarrow> (Inl e, w')
      | (None, w') \<Rightarrow>
          (case files w' path of
             None \<Rightarrow> (Inl FileNotFoundError, w')
           | Some c \<Rightarrow> (Inr (length c), w')))"

section \<open>The data frame and its CSV text\<close>

text \<open>
  A \<^verbatim>\<open>pandas.DataFrame\<close> is modelled by the CSV text that \<^verbatim>\<open>to_csv(index=False)\<close>
  renders for it: the header line, and one line per row, each with its line terminator.
  pandas renders a row the same way in whatever slice of the frame the row is written.
\<close>

record dataframe =
  header_line :: string
  row_lines :: "string list"

definition len :: "dataframe \<Rightarrow> nat" where
  "len df = length (row_lines df)"

definition iloc :: "dataframe \<Rightarrow> nat \<Rightarrow> nat \<Rightarrow> dataframe" where
  \<comment> \<open>\<^verbatim>\<open>df.iloc[a:b]\<close> for non-negative bounds: the rows of index \<open>i\<close> with \<open>a \<le> i < b\<close>.\<close>
  "iloc df a b = df\<lparr>row_lines := take (b - a) (drop a (row_lines df))\<rparr>"

datatype file_mode = Write | Append

definition to_csv :: "dataframe \<Rightarrow> string \<Rightarrow> file_mode \<Rightarrow> bool \<Rightarrow> unit io" where
  \<comment> \<open>\<^verbatim>\<open>chunk.to_csv(path, mode=mode, header=header, index=False)\<close>: mode \<^verbatim>\<open>'w'\<close>
      replaces the file, mode \<^verbatim>\<open>'a'\<close> appends to it (creating it when absent).\<close>
  "to_csv chunk path mode header w =
     (case io_fault w of
        (Some e, w') \<Rightarrow> (Inl e, w')
      | (None, w') \<Rightarrow>
          (let text = (if header then header_line chunk else []) @ concat (row_lines chunk);
               old = (case mode of
                        Write \<Rightarrow> []
                      | Append \<Rightarrow> (case files w' path of None \<Rightarrow> [] | Some c \<Rightarrow> c))
           in (Inr (), w'\<lparr>files := (files w')(path \<mapsto> old @ text)\<rparr>)))"

section \<open>\<^verbatim>\<open>write_csv_with_size_limit\<close>\<close>

text \<open>
  The source divides the size in bytes by \<^verbatim>\<open>1024 * 1024\<close> and compares the quotient
  with \<^verbatim>\<open>size_limit_mb\<close>. Dividing an integer below \<open>2^53\<close> by \<open>2^20\<close> is exact in
  binary floating point, so the comparison is the one of the exact quotients; the model
  computes with rationals. (A limit of NaN or infinity, which no size ever reaches, has no
  counterpart here; it behaves as a limit above every size.)
\<close>

definition mb :: "nat \<Rightarrow> rat" where
  "mb n = of_nat n / (1024 * 1024)"

text \<open>
  The source binds \<^verbatim>\<open>chunk_size = 10000\<close> as a local constant. The model takes it as
  the first argument, so that the theorems hold for every chunk row count, and
  \<open>chunk_size_default\<close> is the source's value.

  \<open>end_index\<close> is \<open>None\<close> as long as the Python variable is unbound: it is first assigned
  inside the loop body. With a chunk size of 0 the Python loop never advances; the loop is
  therefore a partial function, \<open>None\<close> standing for a run that does not return.
\<close>

definition chunk_size_default :: nat where
  "chunk_size_default = 10000"

partial_function (option) write_loop ::
  "nat \<Rightarrow> dataframe \<Rightarrow> string \<Rightarrow> rat \<Rightarrow> nat \<Rightarrow> nat option \<Rightarrow> world
     \<Rightarrow> ((exn + nat option) \<times> world) option"
where
  "write_loop chunk_size df output_file size_limit_mb start_index end_index w =
     (let total_rows = len df in
      if start_index < total_rows then
        (let end_index' = min (start_index + chunk_size) total_rows;
             chunk = iloc df start_index end_index';
             mode = (if start_index = 0 then Write else Append)
         in case to_csv chunk output_file mode (start_index = 0) w of
              (Inl e, w1) \<Rightarrow> Some (Inl e, w1)
            | (Inr _, w1) \<Rightarrow>
                (case getsize output_file w1 of
                   (Inl e, w2) \<Rightarrow> Some (Inl e, w2)
                 | (Inr size_bytes, w2) \<Rightarrow>
                     (let current_size_mb = mb size_bytes in
                      if current_size_mb \<ge> size_limit_mb
                      then Some (Inr (Some end_index'),
                                 logger_info (ReachedLimit current_size_mb) w2)
                      else write_loop chunk_size df output_file size_limit_mb
                             end_index' (Some end_index') w2)))
      else Some (Inr end_index, w))"

definition write_body ::
  "nat \<Rightarrow> dataframe \<Rightarrow> string \<Rightarrow> rat \<Rightarrow> world \<Rightarrow> ((exn + unit) \<times> world) option"
where
  \<comment> \<open>The body of the \<^verbatim>\<open>try\<close>: the loop, then the two accounting log lines.\<close>
  "write_body chunk_size df output_file size_limit_mb w =
     (case write_loop chunk_size df output_file size_limit_mb 0 None w of
        None \<Rightarrow> None
      | Some (Inl e, w1) \<Rightarrow> Some (Inl e, w1)
      | Some (Inr end_index, w1) \<Rightarrow>
          (case getsize output_file w1 of
             (Inl e, w2) \<Rightarrow> Some (Inl e, w2)
           | (Inr size_bytes, w2) \<Rightarrow>
               (let w3 = logger_info (FinalSize (mb size_bytes)) w2 in
                case end_index of
                  None \<Rightarrow> Some (Inl UnboundLocalError, w3)
                | Some n \<Rightarrow> Some (Inr (), logger_info (RowsWritten n (len df)) w3))))"

definition write_csv_with_size_limit ::
  "nat \<Rightarrow> dataframe \<Rightarrow> string \<Rightarrow> rat \<Rightarrow> world \<Rightarrow> ((exn + unit) \<times> world) option"
where
  "write_csv_with_size_limit chunk_size df output_file size_limit_mb w =
     (case write_body chunk_size df output_file size_limit_mb w of
        None \<Rightarrow> None
      | Some (Inl e, w1) \<Rightarrow>
          if is_Exception e
          then Some (Inr (), logger_error (WriteError size_limit_mb e) w1)
          else Some (Inl e, w1)
      | Some (Inr u, w1) \<Rightarrow> Some (Inr u, w1))"

section \<open>\<^verbatim>\<open>download_nyc_taxi_data\<close>\<close>

text \<open>
  A \<^verbatim>\<open>datetime\<close>: the calendar date, and the time of day in microseconds since midnight
  (hour, minute, second and microsecond in one number; the code never looks at them apart).
  \<^verbatim>\<open>current_date <= end_date\<close> compares all of it, in this order.
\<close>

record datetime =
  year :: nat
  month :: nat
  day :: nat
  tod :: nat

definition datetime_le :: "datetime \<Rightarrow> datetime \<Rightarrow> bool" where
  "datetime_le a b \<longleftrightarrow>
     year a < year b \<or> (year a = year b \<and>
       (month a < month b \<or> (month a = month b \<and>
          (day a < day b \<or> (day a = day b \<and> tod a \<le> tod b)))))"

definition is_leap :: "nat \<Rightarrow> bool" where
  "is_leap y \<longleftrightarrow> y mod 4 = 0 \<and> (y mod 100 \<noteq> 0 \<or> y mod 400 = 0)"

definition days_in_month :: "nat \<Rightarrow> nat \<Rightarrow> nat" where
  "days_in_month y m =
     (if m = 2 then (if is_leap y then 29 else 28)
      else if m = 4 \<or> m = 6 \<or> m = 9 \<or> m = 11 then 30 else 31)"

definition next_day :: "datetime \<Rightarrow> exn + datetime" where
  \<comment> \<open>The day after; \<^verbatim>\<open>datetime\<close> ends with the year 9999.\<close>
  "next_day d =
     (if day d < days_in_month (year d) (month d) then Inr (d\<lparr>day := day d + 1\<rparr>)
      else if month d < 12 then Inr (d\<lparr>month := month d + 1, day := 1\<rparr>)
      else if year d < 9999 then Inr (d\<lparr>year := year d + 1, month := 1, day := 1\<rparr>)
      else Inl OverflowError)"

primrec add_days :: "nat \<Rightarrow> datetime \<Rightarrow> exn + datetime" where
  \<comment> \<open>\<^verbatim>\<open>d + timedelta(days=n)\<close>: \<^verbatim>\<open>OverflowError\<close> when the result is past the last day.\<close>
  "add_days 0 d = Inr d"
| "add_days (Suc n) d = (case next_day d of Inl e \<Rightarrow> Inl e | Inr d' \<Rightarrow> add_days n d')"

definition replace_day :: "datetime \<Rightarrow> nat \<Rightarrow> datetime" where
  "replace_day d n = d\<lparr>day := n\<rparr>"

text \<open>
  The file name is built with \<^verbatim>\<open>strftime('%Y-%m')\<close>, the directory with the year as
  \<^verbatim>\<open>str\<close> prints it.
\<close>

definition digit_char :: "nat \<Rightarrow> char" where
  "digit_char n = ''0123456789'' ! n"

fun str_nat :: "nat \<Rightarrow> string" where
  "str_nat n = (if n < 10 then [digit_char n] else str_nat (n div 10) @ [digit_char (n mod 10)])"

declare str_nat.simps [simp del]

definition zfill :: "nat \<Rightarrow> string \<Rightarrow> string" where
  "zfill width s = replicate (width - length s) (CHR ''0'') @ s"

definition strftime_Y_m :: "datetime \<Rightarrow> string" where
  \<comment> \<open>\<^verbatim>\<open>strftime('%Y-%m')\<close>, the year written with four digits as the Python
      documentation gives it.\<close>
  "strftime_Y_m d = zfill 4 (str_nat (year d)) @ ''-'' @ zfill 2 (str_nat (month d))"

definition path_join :: "string \<Rightarrow> string \<Rightarrow> string" where
  \<comment> \<open>\<^verbatim>\<open>os.path.join\<close> on POSIX, two components.\<close>
  "path_join a b =
     (if b \<noteq> [] \<and> hd b = CHR ''/'' then b
      else if a = [] \<or> last a = CHR ''/'' then a @ b
      else a @ ''/'' @ b)"

definition print :: "out_line \<Rightarrow> world \<Rightarrow> world" where
  "print l w = w\<lparr>stdout := stdout w @ [l]\<rparr>"

definition requests_get :: "string \<Rightarrow> response io" where
  "requests_get url w = (remote w url, w)"

definition makedirs :: "string \<Rightarrow> unit io" where
  \<comment> \<open>\<^verbatim>\<open>os.makedirs(path, exist_ok=True)\<close>; only the leaf directory is recorded.\<close>
  "makedirs path w =
     (case io_fault w of
        (Some e, w') \<Rightarrow> (Inl e, w')
      | (None, w') \<Rightarrow> (Inr (), w'\<lparr>dirs := insert path (dirs w')\<rparr>))"

definition write_file :: "string \<Rightarrow> string \<Rightarrow> unit io" where
  \<comment> \<open>\<^verbatim>\<open>with open(path, 'wb') as f: f.write(bytes)\<close>\<close>
  "write_file path bytes w =
     (case io_fault w of
        (Some e, w') \<Rightarrow> (Inl e, w')
      | (None, w') \<Rightarrow> (Inr (), w'\<lparr>files := (files w')(path \<mapsto> bytes)\<rparr>))"

definition base_url :: string where
  "base_url = ''https://d37ci6vzurychx.cloudfront.net/trip-data/''"

definition download_file :: "datetime \<Rightarrow> string \<Rightarrow> unit io" where
  \<comment> \<open>The body of the \<^verbatim>\<open>for\<close> loop.\<close>
  "download_file current_date data_type w =
     (let file_name = data_type @ ''_tripdata_'' @ strftime_Y_m current_date @ ''.parquet'';
          url = base_url @ file_name;
          w0 = print (Downloading file_name) w
      in case requests_get url w0 of
           (Inl e, w1) \<Rightarrow> (Inl e, w1)
         | (Inr response, w1) \<Rightarrow>
             if status_code response = 200 then
               (let output_dir = ''nyc_taxi_data/'' @ data_type @ ''/''
                                   @ str_nat (year current_date)
                in case makedirs output_dir w1 of
                     (Inl e, w2) \<Rightarrow> (Inl e, w2)
                   | (Inr _, w2) \<Rightarrow>
                       (case write_file (path_join output_dir file_name) (content response) w2 of
                          (Inl e, w3) \<Rightarrow> (Inl e, w3)
                        | (Inr _, w3) \<Rightarrow> (Inr (), print (Downloaded file_name) w3)))
             else (Inr (), print (Failed file_name (status_code response)) w1))"

fun for_data_types :: "datetime \<Rightarrow> string list \<Rightarrow> unit io" where
  "for_data_types current_date [] w = (Inr (), w)"
| "for_data_types current_date (data_type # rest) w =
     (case download_file current_date data_type w of
        (Inl e, w') \<Rightarrow> (Inl e, w')
      | (Inr _, w') \<Rightarrow> for_data_types current_date rest w')"

text \<open>
  The \<^verbatim>\<open>while\<close> loop ends: every pass moves \<open>current_date\<close> to a later month, which
  \<open>month_rank\<close> measures, and no month is later than the one of \<open>end_date\<close>.
\<close>

definition month_rank :: "datetime \<Rightarrow> nat" where
  "month_rank d = year d * 13 + min (month d) 12"

function download_loop :: "datetime \<Rightarrow> datetime \<Rightarrow> string list \<Rightarrow> unit io" where
  "download_loop current_date end_date data_types w =
     (if datetime_le current_date end_date then
        (case for_data_types current_date data_types w of
           (Inl e, w1) \<Rightarrow> (Inl e, w1)
         | (Inr _, w1) \<Rightarrow>
             (case add_days 32 current_date of
                Inl e \<Rightarrow> (Inl e, w1)
              | Inr d \<Rightarrow> download_loop (replace_day d 1) end_date data_types w1))
      else (Inr (), w))"
  by pat_completeness auto
termination
proof (relation "measure (\<lambda>(c, e, ts, w). month_rank e + 1 - month_rank c)")
  show "wf (measure (\<lambda>(c, e, ts, w). month_rank e + 1 - month_rank c))" by simp
next
  fix current_date end_date :: datetime and data_types :: "string list" and w :: world
    and x :: "(exn + unit) \<times> world" and x1 :: "exn + unit" and w1 :: world and u :: unit
    and d :: datetime
  assume le: "datetime_le current_date end_date"
    and add: "add_days 32 current_date = Inr d"
  have one: "(month_rank b = month_rank a \<and> day b = day a + 1 \<and> day b \<le> 31)
               \<or> month_rank a < month_rank b"
    if "next_day a = Inr b" for a b
    using that by (auto simp: next_day_def month_rank_def days_in_month_def split: if_splits)
  have many: "month_rank a \<le> month_rank b \<and>
              (month_rank b = month_rank a \<longrightarrow> day b = day a + n \<and> (0 < n \<longrightarrow> day b \<le> 31))"
    if "add_days n a = Inr b" for n a b
    using that
  proof (induction n arbitrary: a)
    case 0
    then show ?case by simp
  next
    case (Suc n)
    then obtain c where c: "next_day a = Inr c" "add_days n c = Inr b"
      by (auto split: sum.splits)
    from one[OF c(1)] Suc.IH[OF c(2)] show ?case by auto
  qed
  have "month_rank current_date < month_rank d" using many[OF add] by auto
  moreover have "month_rank current_date \<le> month_rank end_date"
    using le by (auto simp: datetime_le_def month_rank_def)
  moreover have "month_rank (replace_day d 1) = month_rank d"
    by (simp add: replace_day_def month_rank_def)
  ultimately show "((replace_day d 1, end_date, data_types, w1),
                    (current_date, end_date, data_types, w))
          \<in> measure (\<lambda>(c, e, ts, w). month_rank e + 1 - month_rank c)"
    by simp
qed

definition download_nyc_taxi_data :: "datetime \<Rightarrow> datetime \<Rightarrow> string list \<Rightarrow> unit io" where
  "download_nyc_taxi_data start_date end_date data_types w =
     download_loop start_date end_date data_types w"

section \<open>Notions of the specification\<close>

text \<open>
  The limit in bytes; the bytes of the artifact that holds the header and the first \<open>n\<close>
  rows; the bytes that writing the chunk of the rows \<open>a\<close> to \<open>b\<close> adds to the artifact; the
  number of calendar months of a range, both end months counted; and the three kinds of
  printed lines: a retrieval attempted, a partition persisted, a failure reported.
\<close>

definition limit_bytes :: "rat \<Rightarrow> rat" where
  "limit_bytes size_limit_mb = size_limit_mb * (1024 * 1024)"

definition csv_prefix :: "dataframe \<Rightarrow> nat \<Rightarrow> string" where
  "csv_prefix df n = header_line df @ concat (take n (row_lines df))"

definition chunk_bytes :: "dataframe \<Rightarrow> nat \<Rightarrow> nat \<Rightarrow> nat" where
  "chunk_bytes df a b =
     length ((if a = 0 then header_line (iloc df a b) else []) @ concat (row_lines (iloc df a b)))"

definition months_between :: "datetime \<Rightarrow> datetime \<Rightarrow> nat" where
  "months_between a b = (year b * 12 + month b) + 1 - (year a * 12 + month a)"

fun is_request :: "out_line \<Rightarrow> bool" where
  "is_request (Downloading f) = True"
| "is_request _ = False"



section \<open>Predicates of the proofs\<close>

text \<open>
  \<open>reached df L n\<close>: the artifact holding the header and \<open>n\<close> rows measures at least the
  limit. \<open>stops_at cs df L s n\<close>: a loop entered at row \<open>s\<close> writes up to row \<open>n\<close>, where
  \<open>n\<close> is the first chunk boundary after \<open>s\<close> at which the limit is reached, or the end of
  the table when the limit is reached at none. \<open>ran p c ls w w'\<close>: \<open>w'\<close> is \<open>w\<close> with \<open>c\<close>
  stored at \<open>p\<close> and \<open>ls\<close> logged, the list of coming faults apart. \<open>loop_post\<close> and
  \<open>body_post\<close> say what a run of the loop, and of the whole \<^verbatim>\<open>try\<close> body, leaves behind:
  an exception raised is one of the faults, and nothing is logged as rows written then.
\<close>

definition reached :: "dataframe \<Rightarrow> rat \<Rightarrow> nat \<Rightarrow> bool" where
  "reached df size_limit_mb n \<longleftrightarrow> size_limit_mb \<le> mb (length (csv_prefix df n))"

definition stops_at :: "nat \<Rightarrow> dataframe \<Rightarrow> rat \<Rightarrow> nat \<Rightarrow> nat \<Rightarrow> bool" where
  "stops_at cs df L s n \<longleftrightarrow>
     s < n \<and> n \<le> len df \<and> (n = len df \<or> cs dvd (n - s)) \<and>
     (n < len df \<longrightarrow> reached df L n) \<and>
     (\<forall>e. s < e \<and> e < n \<and> cs dvd (e - s) \<longrightarrow> \<not> reached df L e)"

definition ran :: "string \<Rightarrow> string \<Rightarrow> log_record list \<Rightarrow> world \<Rightarrow> world \<Rightarrow> bool" where
  "ran p c ls w w' \<longleftrightarrow>
     w' = w\<lparr>files := (files w)(p \<mapsto> c), logs := logs w @ ls, faults := faults w'\<rparr>"

definition loop_post ::
  "nat \<Rightarrow> dataframe \<Rightarrow> string \<Rightarrow> rat \<Rightarrow> nat \<Rightarrow> world \<Rightarrow> (exn + nat option) \<times> world \<Rightarrow> bool"
where
  "loop_post cs df p L s w res \<longleftrightarrow>
     set (faults (snd res)) \<subseteq> set (faults w) \<and>
     (case fst res of
        Inl x \<Rightarrow> Some x \<in> set (faults w) \<and> logs (snd res) = logs w
      | Inr ei \<Rightarrow> \<exists>n. ei = Some n \<and> stops_at cs df L s n \<and>
          ran p (csv_prefix df n)
            (if reached df L n then [ReachedLimit (mb (length (csv_prefix df n)))] else [])
            w (snd res))"

definition body_post ::
  "nat \<Rightarrow> dataframe \<Rightarrow> string \<Rightarrow> rat \<Rightarrow> world \<Rightarrow> (exn + unit) \<times> world \<Rightarrow> bool"
where
  "body_post cs df p L w res \<longleftrightarrow>
     set (faults (snd res)) \<subseteq> set (faults w) \<and>
     (case fst res of
        Inl x \<Rightarrow> Some x \<in> set (faults w) \<and>
          (\<exists>pre. logs (snd res) = logs w @ pre \<and> (\<forall>n t. RowsWritten n t \<notin> set pre))
      | Inr u \<Rightarrow> \<exists>n. stops_at cs df L 0 n \<and>
          ran p (csv_prefix df n)
            ((if reached df L n then [ReachedLimit (mb (length (csv_prefix df n)))] else [])
             @ [FinalSize (mb (length (csv_prefix df n))), RowsWritten n (len df)])
            w (snd res))"



definition requests :: "world \<Rightarrow> world \<Rightarrow> nat \<Rightarrow> bool" where
  "requests w w' k \<longleftrightarrow>
     faults w' = [] \<and> remote w' = remote w \<and>
     (\<exists>out. stdout w' = stdout w @ out \<and> length (filter is_request out) = k)"

definition first_of_next_month :: "datetime \<Rightarrow> datetime" where
  "first_of_next_month d =
     (if month d < 12 then d\<lparr>month := month d + 1, day := 1\<rparr>
      else d\<lparr>year := year d + 1, month := 1, day := 1\<rparr>)"

section \<open>Concrete inputs\<close>

text \<open>
  A table of five rows of four bytes under a header of four bytes, a table without rows,
  and worlds to run them in: an empty one, one with a file already at the output path, one
  whose third file-system call fails. For the download: a remote side that serves every
  file, one that answers 500 for February 2024, and one that cannot be reached for it.
\<close>

definition demo_df :: dataframe where
  "demo_df = \<lparr>header_line = ''a,b\<newline>'',
              row_lines = [''1,2\<newline>'', ''3,4\<newline>'', ''5,6\<newline>'', ''7,8\<newline>'', ''9,0\<newline>'']\<rparr>"

definition empty_df :: dataframe where
  "empty_df = \<lparr>header_line = ''a,b\<newline>'', row_lines = []\<rparr>"

definition demo_world :: world where
  "demo_world = \<lparr>files = Map.empty, dirs = {}, remote = (\<lambda>url. Inl ConnectionError),
                 stdout = [], logs = [], faults = []\<rparr>"

definition stale_world :: world where
  "stale_world = demo_world\<lparr>files := [''nyc_taxi_subset.csv'' \<mapsto> ''old'']\<rparr>"


definition ok_response :: response where
  "ok_response = \<lparr>status_code = 200, content = ''PAR1''\<rparr>"

definition online_world :: world where
  "online_world = demo_world\<lparr>remote := (\<lambda>url. Inr ok_response)\<rparr>"




definition jan01 :: datetime where "jan01 = \<lparr>year = 2024, month = 1, day = 1, tod = 0\<rparr>"

definition jan31 :: datetime where "jan31 = \<lparr>year = 2024, month = 1, day = 31, tod = 0\<rparr>"

definition mar31 :: datetime where "mar31 = \<lparr>year = 2024, month = 3, day = 31, tod = 0\<rparr>"

section \<open>Evaluating concrete runs\<close>

text \<open>
  The theorems on the export take any positive chunk row count; the constant of the source
  is one.
\<close>

lemma chunk_size_default_positive: "0 < chunk_size_default"
  by (simp add: chunk_size_default_def)

lemma add_days_numeral:
  "add_days (numeral k) d =
     (case next_day d of Inl e \<Rightarrow> Inl e | Inr d' \<Rightarrow> add_days (pred_numeral k) d')"
  by (simp add: numeral_eq_Suc)

lemmas run_export =
  write_csv_with_size_limit_def write_body_def write_loop.simps demo_df_def empty_df_def
  demo_world_def to_csv_def getsize_def io_fault_def iloc_def len_def mb_def
  logger_info_def logger_error_def csv_prefix_def Let_def

lemmas run_download =
  download_nyc_taxi_data_def download_file_def requests_get_def makedirs_def
  write_file_def io_fault_def print_def demo_world_def ok_response_def
  replace_day_def datetime_le_def strftime_Y_m_def zfill_def str_nat.simps digit_char_def
  path_join_def base_url_def add_days_numeral next_day_def days_in_month_def is_leap_def Let_def

lemma demo_run:
  "write_csv_with_size_limit 2 demo_df ''out.csv'' (16 / 1048576) demo_world =
     Some (Inr (), demo_world\<lparr>files := [''out.csv'' \<mapsto> csv_prefix demo_df 4],
             logs := [ReachedLimit (mb 20), FinalSize (mb 20), RowsWritten 4 5]\<rparr>)"
  by (simp add: write_csv_with_size_limit_def write_body_def write_loop.simps demo_df_def
        demo_world_def to_csv_def getsize_def io_fault_def iloc_def len_def mb_def
        logger_info_def csv_prefix_def Let_def)

section \<open>The export loop\<close>

subsection \<open>Arithmetic of chunk boundaries\<close>

lemma stops_at_first:
  assumes "0 < cs" "s < len df" "e = min (s + cs) (len df)" "reached df L e \<or> e = len df"
  shows "stops_at cs df L s e"
proof -
  have "\<not> reached df L x" if x: "s < x \<and> x < e \<and> cs dvd (x - s)" for x
  proof -
    from x assms(1) have "cs \<le> x - s" by (auto intro: dvd_imp_le)
    with x assms(3) show ?thesis by auto
  qed
  moreover have "e = len df \<or> cs dvd (e - s)" using assms(3) by (auto simp: min_def)
  ultimately show ?thesis using assms unfolding stops_at_def by auto
qed

lemma stops_at_step:
  assumes "0 < cs" "e = s + cs" "e < len df" "\<not> reached df L e" "stops_at cs df L e n"
  shows "stops_at cs df L s n"
proof -
  from assms(5) have n: "e < n" "n \<le> len df" "n = len df \<or> cs dvd (n - e)"
    "n < len df \<longrightarrow> reached df L n"
    "\<forall>x. e < x \<and> x < n \<and> cs dvd (x - e) \<longrightarrow> \<not> reached df L x"
    unfolding stops_at_def by simp_all
  have "n - s = cs + (n - e)" using n(1) assms(2) by arith
  then have d1: "n = len df \<or> cs dvd (n - s)" using n(3) by auto
  have d2: "\<not> reached df L x" if x: "s < x \<and> x < n \<and> cs dvd (x - s)" for x
  proof -
    from x assms(1) have "cs \<le> x - s" by (auto intro: dvd_imp_le)
    then have ex: "e \<le> x" using assms(2) x by arith
    show ?thesis
    proof (cases "x = e")
      case True then show ?thesis using assms(4) by simp
    next
      case ne: False
      have "x - s = cs + (x - e)" using ex assms(2) by arith
      with x have "cs dvd (x - e)" by (metis dvd_add_right_iff dvd_refl)
      with n(5) ex ne x show ?thesis by auto
    qed
  qed
  show ?thesis unfolding stops_at_def using n(1,2,4) assms(2) d1 d2 by auto
qed

lemma stops_at_unique:
  assumes "stops_at cs df L s n" "stops_at cs df L s m"
  shows "n = m"
proof -
  have aux: False if a: "stops_at cs df L s a" and b: "stops_at cs df L s b" and lt: "a < b" for a b
  proof -
    from b have "b \<le> len df" by (simp add: stops_at_def)
    with lt have "a < len df" by simp
    with a have "reached df L a" "cs dvd (a - s)" "s < a" by (auto simp: stops_at_def)
    with b lt show False by (auto simp: stops_at_def)
  qed
  show ?thesis using aux[OF assms] aux[OF assms(2,1)] by (cases n m rule: linorder_cases) auto
qed



subsection \<open>Bytes of the artifact\<close>

lemma take_drop_append: "a \<le> b \<Longrightarrow> take a xs @ take (b - a) (drop a xs) = take b xs"
  by (metis le_add_diff_inverse take_add)

lemma reached_bytes: "reached df L n \<longleftrightarrow> limit_bytes L \<le> of_nat (length (csv_prefix df n))"
  by (simp add: reached_def mb_def limit_bytes_def pos_le_divide_eq)

lemma csv_prefix_mono: "n \<le> m \<Longrightarrow> length (csv_prefix df n) \<le> length (csv_prefix df m)"
proof -
  assume "n \<le> m"
  then have "take m (row_lines df) = take n (row_lines df) @ take (m - n) (drop n (row_lines df))"
    by (simp add: take_drop_append)
  then show ?thesis by (simp add: csv_prefix_def)
qed

lemma csv_prefix_chunk:
  assumes "a \<le> b"
  shows "length (csv_prefix df b) =
           (if a = 0 then 0 else length (csv_prefix df a)) + chunk_bytes df a b"
proof (cases "a = 0")
  case True
  then show ?thesis by (simp add: csv_prefix_def chunk_bytes_def iloc_def)
next
  case False
  have "concat (take b (row_lines df)) =
          concat (take a (row_lines df)) @ concat (take (b - a) (drop a (row_lines df)))"
    using assms by (simp add: take_drop_append flip: concat_append)
  then have "length (concat (take b (row_lines df))) =
          length (concat (take a (row_lines df)))
          + length (concat (take (b - a) (drop a (row_lines df))))"
    by (simp only: length_append)
  moreover have "chunk_bytes df a b = length (concat (take (b - a) (drop a (row_lines df))))"
    using False by (simp add: chunk_bytes_def iloc_def)
  ultimately show ?thesis using False
    by (simp only: csv_prefix_def length_append if_False add.assoc)
qed

subsection \<open>The file-system calls\<close>

lemma io_fault_cases:
  obtains (pass) fs where "io_fault w = (None, w\<lparr>faults := fs\<rparr>)" "set fs \<subseteq> set (faults w)"
  | (raise) e fs where "io_fault w = (Some e, w\<lparr>faults := fs\<rparr>)" "set fs \<subseteq> set (faults w)"
      "Some e \<in> set (faults w)"
proof (cases "faults w")
  case Nil
  then have "io_fault w = (None, w\<lparr>faults := []\<rparr>)" by (simp add: io_fault_def)
  then show ?thesis using pass by simp
next
  case (Cons f fs)
  then have "io_fault w = (f, w\<lparr>faults := fs\<rparr>)" by (simp add: io_fault_def)
  then show ?thesis using Cons pass[of fs] raise[of _ fs] by (cases f) auto
qed

lemma to_csv_cases:
  assumes "s \<le> e" "s = 0 \<or> files w p = Some (csv_prefix df s)"
  obtains (pass) fs where
      "to_csv (iloc df s e) p (if s = 0 then Write else Append) (s = 0) w =
         (Inr (), w\<lparr>faults := fs, files := (files w)(p \<mapsto> csv_prefix df e)\<rparr>)"
      "set fs \<subseteq> set (faults w)"
  | (raise) x fs where
      "to_csv (iloc df s e) p (if s = 0 then Write else Append) (s = 0) w =
         (Inl x, w\<lparr>faults := fs\<rparr>)"
      "set fs \<subseteq> set (faults w)" "Some x \<in> set (faults w)"
proof (cases w rule: io_fault_cases)
  case (pass fs)
  have "to_csv (iloc df s e) p (if s = 0 then Write else Append) (s = 0) w =
         (Inr (), w\<lparr>faults := fs, files := (files w)(p \<mapsto> csv_prefix df e)\<rparr>)"
  proof (cases "s = 0")
    case True
    then show ?thesis unfolding to_csv_def using pass(1)
      by (simp add: iloc_def csv_prefix_def)
  next
    case False
    then have "files w p = Some (csv_prefix df s)" using assms(2) by simp
    then show ?thesis unfolding to_csv_def using pass(1) False assms(1)
      by (simp add: iloc_def csv_prefix_def take_drop_append flip: concat_append)
  qed
  then show ?thesis using pass(2) that(1) by blast
next
  case (raise x fs)
  have "to_csv (iloc df s e) p (if s = 0 then Write else Append) (s = 0) w =
         (Inl x, w\<lparr>faults := fs\<rparr>)"
    unfolding to_csv_def using raise(1) by simp
  then show ?thesis using raise(2,3) that(2) by blast
qed

lemma getsize_cases:
  assumes "files w p = Some c"
  obtains (pass) fs where "getsize p w = (Inr (length c), w\<lparr>faults := fs\<rparr>)"
      "set fs \<subseteq> set (faults w)"
  | (raise) x fs where "getsize p w = (Inl x, w\<lparr>faults := fs\<rparr>)"
      "set fs \<subseteq> set (faults w)" "Some x \<in> set (faults w)"
proof (cases w rule: io_fault_cases)
  case (pass fs)
  have "getsize p w = (Inr (length c), w\<lparr>faults := fs\<rparr>)"
    unfolding getsize_def using pass(1) assms by simp
  then show ?thesis using pass(2) that(1) by blast
next
  case (raise x fs)
  have "getsize p w = (Inl x, w\<lparr>faults := fs\<rparr>)"
    unfolding getsize_def using raise(1) by simp
  then show ?thesis using raise(2,3) that(2) by blast
qed

lemma logger_info_sel [simp]:
  "faults (logger_info r w) = faults w" "files (logger_info r w) = files w"
  "logs (logger_info r w) = logs w @ [r]"
  by (simp_all add: logger_info_def)

lemma logger_error_sel [simp]:
  "faults (logger_error r w) = faults w" "files (logger_error r w) = files w"
  "logs (logger_error r w) = logs w @ [r]"
  by (simp_all add: logger_error_def)

lemma ran_files:
  assumes "ran p c ls w w'"
  shows "files w' p = Some c"
proof -
  from assms have "files w' =
      files (w\<lparr>files := (files w)(p \<mapsto> c), logs := logs w @ ls, faults := faults w'\<rparr>)"
    unfolding ran_def by (rule arg_cong)
  then show ?thesis by simp
qed

lemma ran_logs:
  assumes "ran p c ls w w'"
  shows "logs w' = logs w @ ls"
proof -
  from assms have "logs w' =
      logs (w\<lparr>files := (files w)(p \<mapsto> c), logs := logs w @ ls, faults := faults w'\<rparr>)"
    unfolding ran_def by (rule arg_cong)
  then show ?thesis by simp
qed

lemma ran_fault_free:
  assumes "ran p c ls w w'" "set (faults w') \<subseteq> set (faults w)" "faults w = []"
  shows "w' = w\<lparr>files := (files w)(p \<mapsto> c), logs := logs w @ ls\<rparr>"
proof -
  have "faults w' = []" using assms(2,3) by simp
  then show ?thesis using assms(1,3) unfolding ran_def by (cases w) simp
qed

lemma faults_same: "faults w = [] \<Longrightarrow> set fs \<subseteq> set (faults w) \<Longrightarrow> w\<lparr>faults := fs\<rparr> = w"
  by (cases w) simp

subsection \<open>The loop and the body of the try\<close>

text \<open>
  With a positive chunk size the loop returns, whatever the faults: by induction on the
  rows still to write.
\<close>

lemma write_loop_run:
  assumes "0 < cs"
  shows "s < len df \<Longrightarrow> s = 0 \<or> files w p = Some (csv_prefix df s) \<Longrightarrow>
    \<exists>res. write_loop cs df p L s ei w = Some res \<and> loop_post cs df p L s w res"
proof (induction "len df - s" arbitrary: s ei w rule: less_induct)
  case less
  define e where "e = min (s + cs) (len df)"
  have se: "s < e" "e \<le> len df" "s \<le> e" using less.prems(1) assms(1) by (auto simp: e_def)
  show ?case
  proof (cases rule: to_csv_cases[OF se(3) less.prems(2), case_names pass raise])
    case (raise x fs)
    have "write_loop cs df p L s ei w = Some (Inl x, w\<lparr>faults := fs\<rparr>)"
      using less.prems(1) raise(1)
      by (subst write_loop.simps) (simp add: Let_def e_def[symmetric])
    then show ?thesis using raise(2,3) by (simp add: loop_post_def)
  next
    case (pass fs)
    define w1 where "w1 = w\<lparr>faults := fs, files := (files w)(p \<mapsto> csv_prefix df e)\<rparr>"
    have w1: "files w1 p = Some (csv_prefix df e)" "faults w1 = fs" "logs w1 = logs w"
      by (simp_all add: w1_def)
    show ?thesis
    proof (cases rule: getsize_cases[OF w1(1), case_names pass raise])
      case (raise x gs)
      have "write_loop cs df p L s ei w = Some (Inl x, w1\<lparr>faults := gs\<rparr>)"
        using less.prems(1) pass(1) raise(1)
        by (subst write_loop.simps) (simp add: Let_def e_def[symmetric] w1_def)
      then show ?thesis using raise(2,3) pass(2) w1(2,3) by (auto simp add: loop_post_def)
    next
      case gpass: (pass gs)
      define w2 where "w2 = w1\<lparr>faults := gs\<rparr>"
      have w2: "files w2 p = Some (csv_prefix df e)" "set (faults w2) \<subseteq> set (faults w)"
        "logs w2 = logs w"
        using gpass(2) pass(2) w1 by (auto simp: w2_def)
      have w2_eq: "w2 = w\<lparr>files := (files w)(p \<mapsto> csv_prefix df e), faults := gs\<rparr>"
        by (simp add: w2_def w1_def)
      show ?thesis
      proof (cases "reached df L e")
        case True
        have "write_loop cs df p L s ei w =
          Some (Inr (Some e), logger_info (ReachedLimit (mb (length (csv_prefix df e)))) w2)"
          using less.prems(1) True pass(1) gpass(1)
          by (subst write_loop.simps)
             (simp add: Let_def e_def[symmetric] reached_def w1_def[symmetric] w2_def)
        moreover have "stops_at cs df L s e"
          using assms less.prems(1) e_def True by (intro stops_at_first) auto
        ultimately show ?thesis using True w2(2)
          by (simp add: loop_post_def ran_def logger_info_def w2_eq)
      next
        case False
        have step: "write_loop cs df p L s ei w = write_loop cs df p L e (Some e) w2"
          using less.prems(1) False pass(1) gpass(1)
          by (subst write_loop.simps)
             (simp add: Let_def e_def[symmetric] reached_def w1_def[symmetric] w2_def)
        show ?thesis
        proof (cases "e < len df")
          case lt: True
          then have e_eq: "e = s + cs" by (auto simp: e_def min_def split: if_splits)
          have dec: "len df - e < len df - s" using se lt by arith
          have "\<exists>res. write_loop cs df p L e (Some e) w2 = Some res \<and> loop_post cs df p L e w2 res"
            by (rule less.hyps[OF dec lt]) (simp add: w2(1))
          then obtain res where res: "write_loop cs df p L e (Some e) w2 = Some res"
            "loop_post cs df p L e w2 res" by blast
          have "loop_post cs df p L s w res"
          proof (cases "fst res")
            case (Inl x)
            then show ?thesis using res(2) w2(2,3) by (auto simp: loop_post_def)
          next
            case (Inr ei')
            with res(2) obtain n where n: "ei' = Some n" "stops_at cs df L e n"
              "ran p (csv_prefix df n)
                (if reached df L n then [ReachedLimit (mb (length (csv_prefix df n)))] else [])
                w2 (snd res)"
              "set (faults (snd res)) \<subseteq> set (faults w2)"
              by (auto simp: loop_post_def)
            have "stops_at cs df L s n"
              using assms e_eq lt False n(2) by (rule stops_at_step)
            moreover have "ran p (csv_prefix df n)
                (if reached df L n then [ReachedLimit (mb (length (csv_prefix df n)))] else [])
                w (snd res)"
              using n(3) unfolding ran_def w2_eq by simp
            ultimately show ?thesis using Inr n(1,4) w2(2) by (auto simp: loop_post_def)
          qed
          then show ?thesis using step res(1) by simp
        next
          case ge: False
          then have e_tot: "e = len df" using se by simp
          have "write_loop cs df p L e (Some e) w2 = Some (Inr (Some e), w2)"
            using e_tot by (subst write_loop.simps) simp
          moreover have "stops_at cs df L s e"
            using assms less.prems(1) e_def e_tot by (intro stops_at_first) auto
          ultimately show ?thesis using step False w2(2)
            by (simp add: loop_post_def ran_def w2_eq)
        qed
      qed
    qed
  qed
qed

lemma write_body_run:
  assumes "0 < cs" "0 < len df"
  shows "\<exists>res. write_body cs df p L w = Some res \<and> body_post cs df p L w res"
proof -
  from write_loop_run[OF assms(1), of 0 df w p L None] assms(2)
  obtain res where res: "write_loop cs df p L 0 None w = Some res" "loop_post cs df p L 0 w res"
    by auto
  obtain r w1 where rw: "res = (r, w1)" by (cases res)
  show ?thesis
  proof (cases r)
    case (Inl x)
    then have "write_body cs df p L w = Some (Inl x, w1)"
      using res(1) rw by (simp add: write_body_def)
    then show ?thesis using res(2) rw Inl by (simp add: body_post_def loop_post_def)
  next
    case (Inr ei)
    with res(2) rw obtain n where n: "ei = Some n" "stops_at cs df L 0 n"
      "ran p (csv_prefix df n)
         (if reached df L n then [ReachedLimit (mb (length (csv_prefix df n)))] else []) w w1"
      "set (faults w1) \<subseteq> set (faults w)"
      by (auto simp: loop_post_def)
    have f1: "files w1 p = Some (csv_prefix df n)" using n(3) by (rule ran_files)
    show ?thesis
    proof (cases rule: getsize_cases[OF f1, case_names pass raise])
      case (raise x gs)
      then have "write_body cs df p L w = Some (Inl x, w1\<lparr>faults := gs\<rparr>)"
        using res(1) rw Inr by (simp add: write_body_def)
      moreover have "logs w1 = logs w
          @ (if reached df L n then [ReachedLimit (mb (length (csv_prefix df n)))] else [])"
        using n(3) by (rule ran_logs)
      ultimately show ?thesis using raise(2,3) n(4) by (auto simp: body_post_def)
    next
      case (pass gs)
      define ls where "ls = (if reached df L n then [ReachedLimit (mb (length (csv_prefix df n)))] else [])"
      have "write_body cs df p L w =
        Some (Inr (), logger_info (RowsWritten n (len df))
                 (logger_info (FinalSize (mb (length (csv_prefix df n)))) (w1\<lparr>faults := gs\<rparr>)))"
        using res(1) rw Inr n(1) pass(1) by (simp add: write_body_def Let_def)
      moreover have "ran p (csv_prefix df n)
         (ls @ [FinalSize (mb (length (csv_prefix df n))), RowsWritten n (len df)]) w
         (logger_info (RowsWritten n (len df))
                 (logger_info (FinalSize (mb (length (csv_prefix df n)))) (w1\<lparr>faults := gs\<rparr>)))"
        using n(3) unfolding ran_def ls_def[symmetric] logger_info_def
        by (cases w1) (simp)
      ultimately show ?thesis using n(2,4) pass(2) by (auto simp: body_post_def ls_def)
    qed
  qed
qed

lemma export_fault_free:
  assumes "0 < cs" "0 < len df" "faults w = []"
  shows "\<exists>n. stops_at cs df L 0 n \<and>
           write_csv_with_size_limit cs df p L w =
             Some (Inr (), w\<lparr>files := (files w)(p \<mapsto> csv_prefix df n),
                logs := logs w
                  @ (if reached df L n then [ReachedLimit (mb (length (csv_prefix df n)))] else [])
                  @ [FinalSize (mb (length (csv_prefix df n))), RowsWritten n (len df)]\<rparr>)"
proof -
  from write_body_run[OF assms(1,2), of p L w]
  obtain res where res: "write_body cs df p L w = Some res" "body_post cs df p L w res" by blast
  obtain r w1 where rw: "res = (r, w1)" by (cases res)
  from res(2) rw assms(3) obtain u where u: "r = Inr u"
    by (cases r) (auto simp: body_post_def)
  with res(2) rw obtain n where n: "stops_at cs df L 0 n"
     "ran p (csv_prefix df n)
            ((if reached df L n then [ReachedLimit (mb (length (csv_prefix df n)))] else [])
             @ [FinalSize (mb (length (csv_prefix df n))), RowsWritten n (len df)]) w w1"
     "set (faults w1) \<subseteq> set (faults w)"
    by (auto simp: body_post_def)
  have "write_csv_with_size_limit cs df p L w = Some (Inr (), w1)"
    using res(1) rw u by (simp add: write_csv_with_size_limit_def)
  then show ?thesis using n(1) ran_fault_free[OF n(2,3) assms(3)] by auto
qed

lemma export_fault_free_bytes:
  assumes "0 < cs" "row_lines df \<noteq> []" "faults w = []"
  shows "\<exists>n. write_csv_with_size_limit cs df p L w =
             Some (Inr (), w\<lparr>files := (files w)(p \<mapsto> csv_prefix df n),
                logs := logs w
                  @ (if L \<le> mb (length (csv_prefix df n))
                     then [ReachedLimit (mb (length (csv_prefix df n)))] else [])
                  @ [FinalSize (mb (length (csv_prefix df n))), RowsWritten n (len df)]\<rparr>)
          \<and> 0 < n \<and> n \<le> len df \<and> (n = len df \<or> cs dvd n)
          \<and> (n < len df \<longrightarrow> limit_bytes L \<le> of_nat (length (csv_prefix df n)))
          \<and> (\<forall>e. 0 < e \<and> e < n \<and> cs dvd e \<longrightarrow>
                 of_nat (length (csv_prefix df e)) < limit_bytes L)"
proof -
  have "0 < len df" using assms(2) by (simp add: len_def)
  from export_fault_free[OF assms(1) this assms(3), of L p]
  obtain n where n: "stops_at cs df L 0 n"
    "write_csv_with_size_limit cs df p L w =
             Some (Inr (), w\<lparr>files := (files w)(p \<mapsto> csv_prefix df n),
                logs := logs w
                  @ (if reached df L n then [ReachedLimit (mb (length (csv_prefix df n)))] else [])
                  @ [FinalSize (mb (length (csv_prefix df n))), RowsWritten n (len df)]\<rparr>)"
    by blast
  have "\<forall>e. 0 < e \<and> e < n \<and> cs dvd e \<longrightarrow> of_nat (length (csv_prefix df e)) < limit_bytes L"
    using n(1) by (auto simp: stops_at_def reached_bytes not_le)
  moreover have "n < len df \<longrightarrow> limit_bytes L \<le> of_nat (length (csv_prefix df n))"
    using n(1) by (auto simp: stops_at_def reached_bytes)
  moreover have "0 < n" "n \<le> len df" "n = len df \<or> cs dvd n"
    using n(1) by (auto simp: stops_at_def)
  ultimately show ?thesis using n(2) unfolding reached_def by blast
qed

lemma export_nonpositive_limit:
  assumes "size_limit_mb \<le> 0" "row_lines df \<noteq> []" "0 < chunk_size" "faults w = []"
  shows "write_csv_with_size_limit chunk_size df output_file size_limit_mb w =
           Some (Inr (), w\<lparr>files := (files w)(output_file \<mapsto>
                                  csv_prefix df (min chunk_size (len df))),
                   logs := logs w @
                     [ReachedLimit (mb (length (csv_prefix df (min chunk_size (len df))))),
                      FinalSize (mb (length (csv_prefix df (min chunk_size (len df))))),
                      RowsWritten (min chunk_size (len df)) (len df)]\<rparr>)"
proof -
  have pos: "0 < len df" using assms(2) by (simp add: len_def)
  have always: "reached df size_limit_mb k" for k
  proof -
    have "(0::rat) \<le> mb (length (csv_prefix df k))" by (simp add: mb_def)
    with assms(1) show ?thesis unfolding reached_def by (rule order_trans)
  qed
  from export_fault_free[OF assms(3) pos assms(4), of size_limit_mb output_file]
  obtain n where n: "stops_at chunk_size df size_limit_mb 0 n"
    "write_csv_with_size_limit chunk_size df output_file size_limit_mb w =
       Some (Inr (), w\<lparr>files := (files w)(output_file \<mapsto> csv_prefix df n),
          logs := logs w
            @ (if reached df size_limit_mb n
               then [ReachedLimit (mb (length (csv_prefix df n)))] else [])
            @ [FinalSize (mb (length (csv_prefix df n))), RowsWritten n (len df)]\<rparr>)"
    by (elim exE conjE)
  have "stops_at chunk_size df size_limit_mb 0 (min chunk_size (len df))"
    using assms(3) pos always by (intro stops_at_first) auto
  with n(1) have "n = min chunk_size (len df)" by (rule stops_at_unique)
  with n(2) always show ?thesis by simp
qed

lemma post_hoc_nonempty:
  assumes "0 < chunk_size" and "faults w = []" and "row_lines df \<noteq> []"
  shows "\<exists>n w'. write_csv_with_size_limit chunk_size df output_file size_limit_mb w
                   = Some (Inr (), w')
           \<and> files w' output_file = Some (csv_prefix df n)
           \<and> last (logs w') = RowsWritten n (len df)
           \<and> 0 < n \<and> n \<le> len df
           \<and> (\<forall>e. 0 < e \<and> e < n \<and> chunk_size dvd e \<longrightarrow>
                 of_nat (length (csv_prefix df e)) < limit_bytes size_limit_mb)
           \<and> (n < len df \<longrightarrow>
                 chunk_size dvd n
                 \<and> limit_bytes size_limit_mb \<le> of_nat (length (csv_prefix df n)))
           \<and> (chunk_size \<le> len df
                \<and> limit_bytes size_limit_mb \<le> of_nat (length (csv_prefix df chunk_size))
                \<longrightarrow> n = chunk_size)
           \<and> (\<forall>m. chunk_size dvd m \<and> m < n \<and> n \<le> m + chunk_size
                    \<and> 0 < limit_bytes size_limit_mb \<longrightarrow>
                 of_nat (length (csv_prefix df n))
                   < limit_bytes size_limit_mb + of_nat (chunk_bytes df m n))"
proof -
  from export_fault_free_bytes[OF assms(1,3,2), of output_file size_limit_mb]
  obtain n where n:
    "write_csv_with_size_limit chunk_size df output_file size_limit_mb w =
       Some (Inr (), w\<lparr>files := (files w)(output_file \<mapsto> csv_prefix df n),
          logs := logs w
            @ (if size_limit_mb \<le> mb (length (csv_prefix df n))
               then [ReachedLimit (mb (length (csv_prefix df n)))] else [])
            @ [FinalSize (mb (length (csv_prefix df n))), RowsWritten n (len df)]\<rparr>)"
    "0 < n" "n \<le> len df" "n = len df \<or> chunk_size dvd n"
    "n < len df \<longrightarrow> limit_bytes size_limit_mb \<le> of_nat (length (csv_prefix df n))"
    "\<forall>e. 0 < e \<and> e < n \<and> chunk_size dvd e \<longrightarrow>
        of_nat (length (csv_prefix df e)) < limit_bytes size_limit_mb"
    by (elim exE conjE)
  have first: "n = chunk_size"
    if a: "chunk_size \<le> len df"
      "limit_bytes size_limit_mb \<le> of_nat (length (csv_prefix df chunk_size))"
  proof (rule ccontr)
    assume ne: "n \<noteq> chunk_size"
    have "chunk_size \<le> n" using n(2,4) a(1) assms(1) by (auto dest: dvd_imp_le)
    with ne have "chunk_size < n" by simp
    with n(6) assms(1) have "of_nat (length (csv_prefix df chunk_size)) < limit_bytes size_limit_mb"
      by simp
    with a(2) show False by simp
  qed
  have over: "of_nat (length (csv_prefix df n))
                   < limit_bytes size_limit_mb + of_nat (chunk_bytes df m n)"
    if m: "chunk_size dvd m \<and> m < n \<and> n \<le> m + chunk_size \<and> 0 < limit_bytes size_limit_mb" for m
  proof (cases "m = 0")
    case True
    then have "length (csv_prefix df n) = chunk_bytes df m n"
      using csv_prefix_chunk[of 0 n df] by simp
    then show ?thesis using m by simp
  next
    case False
    then have "of_nat (length (csv_prefix df m)) < limit_bytes size_limit_mb"
      using n(6) m by simp
    moreover have "length (csv_prefix df n) = length (csv_prefix df m) + chunk_bytes df m n"
      using csv_prefix_chunk[of m n df] m False by simp
    ultimately show ?thesis by simp
  qed
  define w' where "w' = w\<lparr>files := (files w)(output_file \<mapsto> csv_prefix df n),
          logs := logs w
            @ (if size_limit_mb \<le> mb (length (csv_prefix df n))
               then [ReachedLimit (mb (length (csv_prefix df n)))] else [])
            @ [FinalSize (mb (length (csv_prefix df n))), RowsWritten n (len df)]\<rparr>"
  have c1: "write_csv_with_size_limit chunk_size df output_file size_limit_mb w = Some (Inr (), w')"
    using n(1) by (simp only: w'_def)
  have c2: "files w' output_file = Some (csv_prefix df n)" by (simp add: w'_def)
  have c3: "last (logs w') = RowsWritten n (len df)" by (simp add: w'_def)
  have c4: "n < len df \<longrightarrow>
                 chunk_size dvd n
                 \<and> limit_bytes size_limit_mb \<le> of_nat (length (csv_prefix df n))"
    using n(4,5) by auto
  have c5: "chunk_size \<le> len df
                \<and> limit_bytes size_limit_mb \<le> of_nat (length (csv_prefix df chunk_size))
                \<longrightarrow> n = chunk_size"
    using first by simp
  have c6: "\<forall>m. chunk_size dvd m \<and> m < n \<and> n \<le> m + chunk_size
                    \<and> 0 < limit_bytes size_limit_mb \<longrightarrow>
                 of_nat (length (csv_prefix df n))
                   < limit_bytes size_limit_mb + of_nat (chunk_bytes df m n)"
    using over by simp
  note facts = c1 c2 c3 n(2) n(3) n(6) c4 c5 c6
  have "write_csv_with_size_limit chunk_size df output_file size_limit_mb w
                   = Some (Inr (), w')
           \<and> files w' output_file = Some (csv_prefix df n)
           \<and> last (logs w') = RowsWritten n (len df)
           \<and> 0 < n \<and> n \<le> len df
           \<and> (\<forall>e. 0 < e \<and> e < n \<and> chunk_size dvd e \<longrightarrow>
                 of_nat (length (csv_prefix df e)) < limit_bytes size_limit_mb)
           \<and> (n < len df \<longrightarrow>
                 chunk_size dvd n
                 \<and> limit_bytes size_limit_mb \<le> of_nat (length (csv_prefix df n)))
           \<and> (chunk_size \<le> len df
                \<and> limit_bytes size_limit_mb \<le> of_nat (length (csv_prefix df chunk_size))
                \<longrightarrow> n = chunk_size)
           \<and> (\<forall>m. chunk_size dvd m \<and> m < n \<and> n \<le> m + chunk_size
                    \<and> 0 < limit_bytes size_limit_mb \<longrightarrow>
                 of_nat (length (csv_prefix df n))
                   < limit_bytes size_limit_mb + of_nat (chunk_bytes df m n))"
    by (intro conjI; fact facts)
  then show ?thesis by - (rule exI[of _ n], rule exI[of _ w'], assumption)
qed

subsection \<open>The table without rows\<close>

lemma write_loop_empty:
  "len df = 0 \<Longrightarrow> write_loop cs df p L 0 None w = Some (Inr None, w)"
  by (subst write_loop.simps) simp

lemma write_body_empty:
  assumes "len df = 0"
  obtains (raise) x fs where "write_body cs df p L w = Some (Inl x, w\<lparr>faults := fs\<rparr>)"
      "Some x \<in> set (faults w)" "set fs \<subseteq> set (faults w)"
  | (missing) fs where "files w p = None"
      "write_body cs df p L w = Some (Inl FileNotFoundError, w\<lparr>faults := fs\<rparr>)"
      "set fs \<subseteq> set (faults w)"
  | (stale) c fs where "files w p = Some c"
      "write_body cs df p L w =
         Some (Inl UnboundLocalError, logger_info (FinalSize (mb (length c))) (w\<lparr>faults := fs\<rparr>))"
      "set fs \<subseteq> set (faults w)"
proof (cases w rule: io_fault_cases)
  case (raise x fs)
  then have "write_body cs df p L w = Some (Inl x, w\<lparr>faults := fs\<rparr>)"
    using assms by (simp add: write_body_def write_loop_empty getsize_def)
  then show ?thesis using raise(2,3) that(1) by blast
next
  case (pass fs)
  show ?thesis
  proof (cases "files w p")
    case None
    then have "write_body cs df p L w = Some (Inl FileNotFoundError, w\<lparr>faults := fs\<rparr>)"
      using assms pass(1) by (simp add: write_body_def write_loop_empty getsize_def)
    then show ?thesis using None pass(2) that(2) by blast
  next
    case (Some c)
    then have "write_body cs df p L w =
         Some (Inl UnboundLocalError, logger_info (FinalSize (mb (length c))) (w\<lparr>faults := fs\<rparr>))"
      using assms pass(1) by (simp add: write_body_def write_loop_empty getsize_def Let_def)
    then show ?thesis using Some pass(2) that(3) by blast
  qed
qed

lemma export_empty_fresh:
  assumes "len df = 0" "faults w = []" "files w p = None"
  shows "write_csv_with_size_limit cs df p L w =
           Some (Inr (), w\<lparr>logs := logs w @ [WriteError L FileNotFoundError]\<rparr>)"
proof (cases rule: write_body_empty[OF assms(1), of cs p L w, case_names raise missing stale])
  case (raise x fs) then show ?thesis using assms(2) by simp
next
  case (missing fs)
  then show ?thesis using assms(2)
    by (simp add: write_csv_with_size_limit_def faults_same logger_error_def)
next
  case (stale c fs) then show ?thesis using assms(3) by simp
qed

lemma export_empty_stale:
  assumes "len df = 0" "faults w = []" "files w p = Some c"
  shows "write_csv_with_size_limit cs df p L w =
           Some (Inr (), w\<lparr>logs := logs w @
                   [FinalSize (mb (length c)), WriteError L UnboundLocalError]\<rparr>)"
proof (cases rule: write_body_empty[OF assms(1), of cs p L w, case_names raise missing stale])
  case (raise x fs) then show ?thesis using assms(2) by simp
next
  case (missing fs) then show ?thesis using assms(3) by simp
next
  case (stale d fs)
  then show ?thesis using assms(2,3)
    by (simp add: write_csv_with_size_limit_def faults_same logger_error_def logger_info_def)
qed

section \<open>The export: claims\<close>

text \<open>
  Claim C1. Run with a positive chunk row count and no file-system fault, the export
  returns for every table. A table without rows has no chunk, and no file is written. For a
  table with rows the artifact holds the header and the first \<open>n\<close> rows, in order, \<open>n\<close>
  being the row count reported: the size measured at every chunk boundary before \<open>n\<close> was
  below the limit, and when \<open>n\<close> is not the end of the table, \<open>n\<close> is a chunk boundary at
  which the measured size has reached the limit; so the loop stops at the first boundary
  where the limit is reached, with the chunk that crossed it written in full. In
  particular, when the table has at least \<open>chunk_size\<close> rows and its first chunk, header
  included, measures at least the limit, exactly \<open>chunk_size\<close> rows are reported, not zero.
  For a positive limit the artifact exceeds the limit by less than the bytes of the last
  chunk written.
\<close>

theorem size_check_is_post_hoc:
  assumes "0 < chunk_size" and "faults w = []"
  shows "\<exists>w'. write_csv_with_size_limit chunk_size df output_file size_limit_mb w
                   = Some (Inr (), w')
          \<and> (row_lines df = [] \<longrightarrow> files w' = files w)
          \<and> (row_lines df \<noteq> [] \<longrightarrow> (\<exists>n.
             files w' output_file = Some (csv_prefix df n)
           \<and> last (logs w') = RowsWritten n (len df)
           \<and> 0 < n \<and> n \<le> len df
           \<and> (\<forall>e. 0 < e \<and> e < n \<and> chunk_size dvd e \<longrightarrow>
                 of_nat (length (csv_prefix df e)) < limit_bytes size_limit_mb)
           \<and> (n < len df \<longrightarrow>
                 chunk_size dvd n
                 \<and> limit_bytes size_limit_mb \<le> of_nat (length (csv_prefix df n)))
           \<and> (chunk_size \<le> len df
                \<and> limit_bytes size_limit_mb \<le> of_nat (length (csv_prefix df chunk_size))
                \<longrightarrow> n = chunk_size)
           \<and> (\<forall>m. chunk_size dvd m \<and> m < n \<and> n \<le> m + chunk_size
                    \<and> 0 < limit_bytes size_limit_mb \<longrightarrow>
                 of_nat (length (csv_prefix df n))
                   < limit_bytes size_limit_mb + of_nat (chunk_bytes df m n))))"
proof (cases "row_lines df = []")
  case True
  then have e: "len df = 0" by (simp add: len_def)
  show ?thesis
  proof (cases "files w output_file")
    case None
    from export_empty_fresh[OF e assms(2) None, of chunk_size size_limit_mb] True
    show ?thesis by simp
  next
    case (Some c)
    from export_empty_stale[OF e assms(2) Some, of chunk_size size_limit_mb] True
    show ?thesis by simp
  qed
next
  case False
  from post_hoc_nonempty[OF assms False, of output_file size_limit_mb]
  obtain n w' where
    "write_csv_with_size_limit chunk_size df output_file size_limit_mb w
                   = Some (Inr (), w')
           \<and> files w' output_file = Some (csv_prefix df n)
           \<and> last (logs w') = RowsWritten n (len df)
           \<and> 0 < n \<and> n \<le> len df
           \<and> (\<forall>e. 0 < e \<and> e < n \<and> chunk_size dvd e \<longrightarrow>
                 of_nat (length (csv_prefix df e)) < limit_bytes size_limit_mb)
           \<and> (n < len df \<longrightarrow>
                 chunk_size dvd n
                 \<and> limit_bytes size_limit_mb \<le> of_nat (length (csv_prefix df n)))
           \<and> (chunk_size \<le> len df
                \<and> limit_bytes size_limit_mb \<le> of_nat (length (csv_prefix df chunk_size))
                \<longrightarrow> n = chunk_size)
           \<and> (\<forall>m. chunk_size dvd m \<and> m < n \<and> n \<le> m + chunk_size
                    \<and> 0 < limit_bytes size_limit_mb \<longrightarrow>
                 of_nat (length (csv_prefix df n))
                   < limit_bytes size_limit_mb + of_nat (chunk_bytes df m n))"
    by (elim exE)
  then show ?thesis using False by (intro exI[of _ w']) (simp; blast)
qed

theorem size_check_is_post_hoc_witness:
  "0 < (2::nat) \<and> faults demo_world = [] \<and> row_lines demo_df \<noteq> []
   \<and> 2 \<le> len demo_df
   \<and> limit_bytes (8 / 1048576) \<le> of_nat (length (csv_prefix demo_df 2))
   \<and> (\<exists>w'. write_csv_with_size_limit 2 demo_df ''out.csv'' (8 / 1048576) demo_world
                   = Some (Inr (), w')
           \<and> files w' ''out.csv'' = Some (csv_prefix demo_df 2)
           \<and> last (logs w') = RowsWritten 2 (len demo_df))"
proof -
  have h1: "0 < (2::nat)" by simp
  have h2: "faults demo_world = []" by (simp add: demo_world_def)
  have h3: "row_lines demo_df \<noteq> []" by (simp add: demo_df_def)
  have h4: "2 \<le> len demo_df
     \<and> limit_bytes (8 / 1048576) \<le> of_nat (length (csv_prefix demo_df 2))"
    by (simp add: demo_df_def len_def limit_bytes_def csv_prefix_def)
  from size_check_is_post_hoc[OF h1 h2, of demo_df "''out.csv''" "8 / 1048576"] h1 h2 h3 h4
  show ?thesis by blast
qed

text \<open>
  Claim C2. For a table with rows, a positive chunk row count and no file-system fault:
  when the whole serialized table is smaller than the limit, every chunk is written (the
  artifact is the header and all rows), no limit is reported as reached, and the row count
  reported is the total row count.
\<close>

theorem full_export_below_limit:
  assumes "0 < chunk_size" and "faults w = []" and "row_lines df \<noteq> []"
    and "of_nat (length (header_line df @ concat (row_lines df))) < limit_bytes size_limit_mb"
  shows "write_csv_with_size_limit chunk_size df output_file size_limit_mb w
           = Some (Inr (),
               w\<lparr>files := (files w)(output_file \<mapsto> header_line df @ concat (row_lines df)),
                 logs := logs w @
                   [FinalSize (mb (length (header_line df @ concat (row_lines df)))),
                    RowsWritten (len df) (len df)]\<rparr>)"
proof -
  have full: "csv_prefix df (len df) = header_line df @ concat (row_lines df)"
    by (simp add: csv_prefix_def len_def)
  from export_fault_free_bytes[OF assms(1,3,2), of output_file size_limit_mb]
  obtain n where n:
    "write_csv_with_size_limit chunk_size df output_file size_limit_mb w =
       Some (Inr (), w\<lparr>files := (files w)(output_file \<mapsto> csv_prefix df n),
          logs := logs w
            @ (if size_limit_mb \<le> mb (length (csv_prefix df n))
               then [ReachedLimit (mb (length (csv_prefix df n)))] else [])
            @ [FinalSize (mb (length (csv_prefix df n))), RowsWritten n (len df)]\<rparr>)"
    "n \<le> len df"
    "n < len df \<longrightarrow> limit_bytes size_limit_mb \<le> of_nat (length (csv_prefix df n))"
    by blast
  have below: "(of_nat (length (csv_prefix df n)) :: rat) < limit_bytes size_limit_mb"
  proof -
    have "length (csv_prefix df n) \<le> length (csv_prefix df (len df))"
      using n(2) by (rule csv_prefix_mono)
    then have "(of_nat (length (csv_prefix df n)) :: rat) \<le> of_nat (length (csv_prefix df (len df)))"
      by (simp only: of_nat_le_iff)
    with assms(4) full show ?thesis by simp
  qed
  with n(2,3) have all: "n = len df" by auto
  have "\<not> size_limit_mb \<le> mb (length (csv_prefix df n))"
    using below reached_bytes[of df size_limit_mb n] by (simp add: reached_def)
  with n(1) all full show ?thesis by simp
qed

theorem full_export_below_limit_witness:
  "0 < (2::nat) \<and> faults demo_world = [] \<and> row_lines demo_df \<noteq> []
   \<and> of_nat (length (header_line demo_df @ concat (row_lines demo_df))) < limit_bytes 99
   \<and> write_csv_with_size_limit 2 demo_df ''out.csv'' 99 demo_world
           = Some (Inr (),
               demo_world\<lparr>files := (files demo_world)(''out.csv'' \<mapsto>
                              header_line demo_df @ concat (row_lines demo_df)),
                 logs := logs demo_world @
                   [FinalSize (mb (length (header_line demo_df @ concat (row_lines demo_df)))),
                    RowsWritten (len demo_df) (len demo_df)]\<rparr>)"
proof -
  have h1: "0 < (2::nat)" by simp
  have h2: "faults demo_world = []" by (simp add: demo_world_def)
  have h3: "row_lines demo_df \<noteq> []" by (simp add: demo_df_def)
  have h4: "of_nat (length (header_line demo_df @ concat (row_lines demo_df))) < limit_bytes 99"
    by (simp add: demo_df_def limit_bytes_def)
  from full_export_below_limit[OF h1 h2 h3 h4, of "''out.csv''"] h1 h2 h3 h4
  show ?thesis by (intro conjI)
qed




text \<open>
  Claim C6. For a table with at least one row, run with a positive chunk row count and no
  file-system fault: the export returns, the row count it reports is the end index of the
  last chunk written (the artifact holds the header and exactly that many rows), it is at
  most the total row count, and it is a multiple of the chunk row count unless the last
  chunk written is the table's last one.
\<close>

theorem rows_written_is_last_end_index:
  assumes "0 < chunk_size" and "faults w = []" and "row_lines df \<noteq> []"
  shows "\<exists>n w'. write_csv_with_size_limit chunk_size df output_file size_limit_mb w
                   = Some (Inr (), w')
           \<and> last (logs w') = RowsWritten n (len df)
           \<and> files w' output_file = Some (csv_prefix df n)
           \<and> 0 < n \<and> n \<le> len df \<and> (chunk_size dvd n \<or> n = len df)"
proof -
  have "0 < len df" using assms(3) by (simp add: len_def)
  from export_fault_free[OF assms(1) this assms(2), of size_limit_mb output_file]
  obtain n where n: "stops_at chunk_size df size_limit_mb 0 n"
    "write_csv_with_size_limit chunk_size df output_file size_limit_mb w =
       Some (Inr (), w\<lparr>files := (files w)(output_file \<mapsto> csv_prefix df n),
          logs := logs w
            @ (if reached df size_limit_mb n
               then [ReachedLimit (mb (length (csv_prefix df n)))] else [])
            @ [FinalSize (mb (length (csv_prefix df n))), RowsWritten n (len df)]\<rparr>)"
    by blast
  from n(1) have "0 < n" "n \<le> len df" "chunk_size dvd n \<or> n = len df"
    by (auto simp: stops_at_def)
  then show ?thesis using n(2) by simp
qed

theorem rows_written_is_last_end_index_witness:
  "0 < (2::nat) \<and> faults demo_world = [] \<and> row_lines demo_df \<noteq> [] \<and>
   (\<exists>n w'. write_csv_with_size_limit 2 demo_df ''out.csv'' (16 / 1048576) demo_world
                   = Some (Inr (), w')
           \<and> last (logs w') = RowsWritten n (len demo_df)
           \<and> files w' ''out.csv'' = Some (csv_prefix demo_df n)
           \<and> 0 < n \<and> n \<le> len demo_df \<and> (2 dvd n \<or> n = len demo_df))
   \<and> write_csv_with_size_limit 2 demo_df ''out.csv'' (16 / 1048576) demo_world =
       Some (Inr (), demo_world\<lparr>files := [''out.csv'' \<mapsto> csv_prefix demo_df 4],
               logs := [ReachedLimit (mb 20), FinalSize (mb 20), RowsWritten 4 5]\<rparr>)"
proof -
  have h1: "0 < (2::nat)" by simp
  have h2: "faults demo_world = []" by (simp add: demo_world_def)
  have h3: "row_lines demo_df \<noteq> []" by (simp add: demo_df_def)
  show ?thesis
    using h1 h2 h3 rows_written_is_last_end_index[OF h1 h2 h3, of "''out.csv''" "16 / 1048576"]
      demo_run
    by (intro conjI)
qed



text \<open>
  Claim C8. Two runs of the export on the same table, chunk row count and limit, each on a
  path where no file exists, in worlds that may differ otherwise, leave the same bytes at
  their paths. For a table with rows these bytes are the header, once, followed by the
  first \<open>n\<close> rows for some positive \<open>n\<close>; for a table without rows no file is written at
  either path.
\<close>

theorem export_identical_on_fresh_sinks:
  assumes "0 < chunk_size"
    and "faults w1 = []" and "files w1 p1 = None"
    and "faults w2 = []" and "files w2 p2 = None"
  shows "\<exists>w1' w2'.
           write_csv_with_size_limit chunk_size df p1 size_limit_mb w1 = Some (Inr (), w1')
         \<and> write_csv_with_size_limit chunk_size df p2 size_limit_mb w2 = Some (Inr (), w2')
         \<and> files w1' p1 = files w2' p2
         \<and> (row_lines df \<noteq> [] \<longrightarrow>
              (\<exists>n. 0 < n \<and> n \<le> len df
                 \<and> files w1' p1 = Some (header_line df @ concat (take n (row_lines df)))))"
proof (cases "row_lines df = []")
  case True
  then have e: "len df = 0" by (simp add: len_def)
  show ?thesis
    using export_empty_fresh[OF e assms(2,3)] export_empty_fresh[OF e assms(4,5)] True assms(3,5)
    by simp
next
  case False
  then have pos: "0 < len df" by (simp add: len_def)
  from export_fault_free[OF assms(1) pos assms(2), of size_limit_mb p1]
  obtain n where n: "stops_at chunk_size df size_limit_mb 0 n"
    "write_csv_with_size_limit chunk_size df p1 size_limit_mb w1 =
       Some (Inr (), w1\<lparr>files := (files w1)(p1 \<mapsto> csv_prefix df n),
          logs := logs w1
            @ (if reached df size_limit_mb n
               then [ReachedLimit (mb (length (csv_prefix df n)))] else [])
            @ [FinalSize (mb (length (csv_prefix df n))), RowsWritten n (len df)]\<rparr>)"
    by (elim exE conjE)
  from export_fault_free[OF assms(1) pos assms(4), of size_limit_mb p2]
  obtain m where m: "stops_at chunk_size df size_limit_mb 0 m"
    "write_csv_with_size_limit chunk_size df p2 size_limit_mb w2 =
       Some (Inr (), w2\<lparr>files := (files w2)(p2 \<mapsto> csv_prefix df m),
          logs := logs w2
            @ (if reached df size_limit_mb m
               then [ReachedLimit (mb (length (csv_prefix df m)))] else [])
            @ [FinalSize (mb (length (csv_prefix df m))), RowsWritten m (len df)]\<rparr>)"
    by (elim exE conjE)
  have nm: "n = m" using n(1) m(1) by (rule stops_at_unique)
  have "0 < n" "n \<le> len df" using n(1) by (auto simp: stops_at_def)
  then have "\<exists>k. 0 < k \<and> k \<le> len df
      \<and> Some (csv_prefix df n) = Some (header_line df @ concat (take k (row_lines df)))"
    by (intro exI[of _ n]) (simp add: csv_prefix_def)
  then show ?thesis using n(2) m(2) nm by simp
qed

theorem export_identical_on_fresh_sinks_witness:
  "0 < (2::nat)
   \<and> faults demo_world = [] \<and> files demo_world ''a.csv'' = None
   \<and> faults online_world = [] \<and> files online_world ''b.csv'' = None
   \<and> (\<exists>w1' w2'.
           write_csv_with_size_limit 2 demo_df ''a.csv'' (16 / 1048576) demo_world
             = Some (Inr (), w1')
         \<and> write_csv_with_size_limit 2 demo_df ''b.csv'' (16 / 1048576) online_world
             = Some (Inr (), w2')
         \<and> files w1' ''a.csv'' = files w2' ''b.csv''
         \<and> (row_lines demo_df \<noteq> [] \<longrightarrow>
              (\<exists>n. 0 < n \<and> n \<le> len demo_df
                 \<and> files w1' ''a.csv''
                     = Some (header_line demo_df @ concat (take n (row_lines demo_df))))))"
proof -
  have h1: "0 < (2::nat)" by simp
  have h2: "faults demo_world = []" "files demo_world ''a.csv'' = None"
    by (simp_all add: demo_world_def)
  have h3: "faults online_world = []" "files online_world ''b.csv'' = None"
    by (simp_all add: online_world_def demo_world_def)
  from export_identical_on_fresh_sinks[OF h1 h2 h3, of demo_df "16 / 1048576"] h1 h2 h3
  show ?thesis by (intro conjI)
qed

text \<open>
  Claim C10, as stated, fails: for a table without rows and no file at the output path,
  the error swallowed is the \<^verbatim>\<open>FileNotFoundError\<close> of the size measurement, not the
  unbound variable; and with a file already at the path, the size of that file is
  reported as the final size before the unbound variable is hit.
\<close>

theorem empty_table_error_is_not_unbound_variable:
  "write_body chunk_size_default empty_df ''nyc_taxi_subset.csv'' 99 demo_world
     = Some (Inl FileNotFoundError, demo_world)
   \<and> write_csv_with_size_limit chunk_size_default empty_df ''nyc_taxi_subset.csv'' 99 demo_world
     = Some (Inr (), demo_world\<lparr>logs := [WriteError 99 FileNotFoundError]\<rparr>)
   \<and> write_csv_with_size_limit chunk_size_default empty_df ''nyc_taxi_subset.csv'' 99 stale_world
     = Some (Inr (), stale_world\<lparr>logs := [FinalSize (mb 3), WriteError 99 UnboundLocalError]\<rparr>)"
  by (simp add: run_export stale_world_def)

text \<open>
  Claim C10, amended. For a table without rows, run without file-system fault, the export
  writes nothing, returns normally and reports no row count: when no file exists at the
  output path the size measurement fails with \<^verbatim>\<open>FileNotFoundError\<close> and no final size
  is reported; when a file exists there, its size is reported as the final size and the
  accounting then fails with \<^verbatim>\<open>UnboundLocalError\<close>; either error is logged by the
  handler. For a table with rows and a positive chunk row count the accounting is reached
  with \<open>end_index\<close> bound: the body of the \<^verbatim>\<open>try\<close> ends without exception and logs the
  row count.
\<close>

theorem empty_table_accounting:
  assumes "faults w = []"
  shows "(row_lines df = [] \<and> files w output_file = None \<longrightarrow>
            write_csv_with_size_limit chunk_size df output_file size_limit_mb w =
              Some (Inr (), w\<lparr>logs := logs w @ [WriteError size_limit_mb FileNotFoundError]\<rparr>))
       \<and> (\<forall>c. row_lines df = [] \<and> files w output_file = Some c \<longrightarrow>
            write_csv_with_size_limit chunk_size df output_file size_limit_mb w =
              Some (Inr (), w\<lparr>logs := logs w @
                 [FinalSize (mb (length c)), WriteError size_limit_mb UnboundLocalError]\<rparr>))
       \<and> (row_lines df \<noteq> [] \<and> 0 < chunk_size \<longrightarrow>
            (\<exists>n w'. write_body chunk_size df output_file size_limit_mb w = Some (Inr (), w')
               \<and> 0 < n \<and> last (logs w') = RowsWritten n (len df)))"
proof (intro conjI allI impI)
  assume a: "row_lines df = [] \<and> files w output_file = None"
  then have "len df = 0" by (simp add: len_def)
  from export_empty_fresh[OF this assms] a
  show "write_csv_with_size_limit chunk_size df output_file size_limit_mb w =
              Some (Inr (), w\<lparr>logs := logs w @ [WriteError size_limit_mb FileNotFoundError]\<rparr>)"
    by simp
next
  fix c assume a: "row_lines df = [] \<and> files w output_file = Some c"
  then have "len df = 0" by (simp add: len_def)
  from export_empty_stale[OF this assms] a
  show "write_csv_with_size_limit chunk_size df output_file size_limit_mb w =
              Some (Inr (), w\<lparr>logs := logs w @
                 [FinalSize (mb (length c)), WriteError size_limit_mb UnboundLocalError]\<rparr>)"
    by simp
next
  assume a: "row_lines df \<noteq> [] \<and> 0 < chunk_size"
  then have pos: "0 < len df" "0 < chunk_size" by (simp_all add: len_def)
  from write_body_run[OF pos(2,1), of output_file size_limit_mb w]
  obtain res where res: "write_body chunk_size df output_file size_limit_mb w = Some res"
    "body_post chunk_size df output_file size_limit_mb w res" by (elim exE conjE)
  obtain r w1 where rw: "res = (r, w1)" by (cases res)
  from res(2) rw assms obtain u where u: "r = Inr u" by (cases r) (auto simp: body_post_def)
  with res(2) rw obtain n where n: "stops_at chunk_size df size_limit_mb 0 n"
    "ran output_file (csv_prefix df n)
            ((if reached df size_limit_mb n
              then [ReachedLimit (mb (length (csv_prefix df n)))] else [])
             @ [FinalSize (mb (length (csv_prefix df n))), RowsWritten n (len df)]) w w1"
    by (auto simp: body_post_def)
  have "logs w1 = logs w @ ((if reached df size_limit_mb n
              then [ReachedLimit (mb (length (csv_prefix df n)))] else [])
             @ [FinalSize (mb (length (csv_prefix df n))), RowsWritten n (len df)])"
    using n(2) unfolding ran_def by (cases w) (cases w1, simp)
  then have l: "last (logs w1) = RowsWritten n (len df)" by simp
  have "0 < n" using n(1) by (simp add: stops_at_def)
  then show "\<exists>n w'. write_body chunk_size df output_file size_limit_mb w = Some (Inr (), w')
               \<and> 0 < n \<and> last (logs w') = RowsWritten n (len df)"
    using res(1) rw u l by auto
qed

theorem empty_table_accounting_witness:
  "faults demo_world = []
   \<and> row_lines empty_df = [] \<and> files demo_world ''out.csv'' = None
   \<and> write_csv_with_size_limit 2 empty_df ''out.csv'' 99 demo_world =
        Some (Inr (), demo_world\<lparr>logs := logs demo_world @ [WriteError 99 FileNotFoundError]\<rparr>)
   \<and> row_lines demo_df \<noteq> [] \<and> 0 < (2::nat)
   \<and> (\<exists>n w'. write_body 2 demo_df ''out.csv'' 99 demo_world = Some (Inr (), w')
               \<and> 0 < n \<and> last (logs w') = RowsWritten n (len demo_df))"
proof -
  have h: "faults demo_world = []" by (simp add: demo_world_def)
  have e: "row_lines empty_df = [] \<and> files demo_world ''out.csv'' = None"
    by (simp add: empty_df_def demo_world_def)
  have d: "row_lines demo_df \<noteq> [] \<and> 0 < (2::nat)" by (simp add: demo_df_def)
  from empty_table_accounting[OF h, of empty_df "''out.csv''" 2 99]
       empty_table_accounting[OF h, of demo_df "''out.csv''" 2 99] h e d
  show ?thesis by blast
qed

section \<open>The download loop\<close>

subsection \<open>Runs without exception\<close>







subsection \<open>Counting the months visited\<close>

text \<open>
  From a day of the month up to the 27th, 32 days later is a day of the next month, so the
  loop visits every month of the range. (From a later day it may be a day of the month
  after the next.)
\<close>

lemma add_days_within:
  "day d + k \<le> days_in_month (year d) (month d) \<Longrightarrow> add_days k d = Inr (d\<lparr>day := day d + k\<rparr>)"
proof (induction k arbitrary: d)
  case 0
  then show ?case by simp
next
  case (Suc k)
  then have "next_day d = Inr (d\<lparr>day := day d + 1\<rparr>)" by (simp add: next_day_def)
  moreover have "add_days k (d\<lparr>day := day d + 1\<rparr>) =
      Inr (d\<lparr>day := day d + 1\<rparr>\<lparr>day := day (d\<lparr>day := day d + 1\<rparr>) + k\<rparr>)"
    by (rule Suc.IH) (use Suc.prems in simp)
  ultimately show ?case by simp
qed

lemma add_days_add:
  "add_days (a + b) d = (case add_days a d of Inl e \<Rightarrow> Inl e | Inr d' \<Rightarrow> add_days b d')"
  by (induction a arbitrary: d) (auto split: sum.splits)

lemma month_step:
  assumes "1 \<le> day d" "day d \<le> 27" "1 \<le> month d" "month d \<le> 12" "year d < 9999"
  shows "\<exists>d'. add_days 32 d = Inr d' \<and> replace_day d' 1 = first_of_next_month d"
proof -
  define dim where "dim = days_in_month (year d) (month d)"
  have dim: "28 \<le> dim" "dim \<le> 31" by (auto simp: dim_def days_in_month_def)
  define a where "a = dim - day d"
  define b where "b = 31 - a"
  have split: "32 = a + (1 + b)" using dim assms(2) by (simp add: a_def b_def)
  have s1: "add_days a d = Inr (d\<lparr>day := dim\<rparr>)"
    using add_days_within[of d a] assms(2) dim by (simp add: a_def dim_def)
  have s2: "next_day (d\<lparr>day := dim\<rparr>) = Inr (first_of_next_month d)"
    using assms(4,5) by (simp add: next_day_def dim_def first_of_next_month_def)
  have room: "1 + b \<le> days_in_month (year (first_of_next_month d)) (month (first_of_next_month d))"
  proof -
    have b: "1 + b = 32 + day d - dim" using dim assms(2) by (simp add: a_def b_def)
    consider "month d = 1" | "month d = 2" | "3 \<le> month d"
      using assms(3) by fastforce
    then show ?thesis
    proof cases
      case 1
      then show ?thesis using b assms(2)
        by (simp add: first_of_next_month_def days_in_month_def dim_def)
    next
      case 2
      then show ?thesis using b assms(2)
        by (simp add: first_of_next_month_def days_in_month_def dim_def)
    next
      case 3
      then have "30 \<le> dim" by (simp add: dim_def days_in_month_def)
      moreover have "30 \<le> days_in_month (year (first_of_next_month d))
                             (month (first_of_next_month d))"
        using 3 by (simp add: first_of_next_month_def days_in_month_def)
      ultimately show ?thesis using b assms(2) by simp
    qed
  qed
  have d1: "day (first_of_next_month d) = 1" by (simp add: first_of_next_month_def)
  have s3: "add_days b (first_of_next_month d) = Inr ((first_of_next_month d)\<lparr>day := 1 + b\<rparr>)"
    using add_days_within[of "first_of_next_month d" b] room by (simp only: d1)
  have t1: "add_days 1 (d\<lparr>day := dim\<rparr>) = Inr (first_of_next_month d)"
    using s2 by simp
  have t2: "add_days (1 + b) (d\<lparr>day := dim\<rparr>) = Inr ((first_of_next_month d)\<lparr>day := 1 + b\<rparr>)"
    by (simp only: add_days_add t1 s3 sum.case)
  have "add_days (a + (1 + b)) d = Inr ((first_of_next_month d)\<lparr>day := 1 + b\<rparr>)"
    by (simp only: add_days_add[of a] s1 t2 sum.case)
  then have "add_days 32 d = Inr ((first_of_next_month d)\<lparr>day := 1 + b\<rparr>)"
    by (simp only: split[symmetric])
  moreover have "replace_day ((first_of_next_month d)\<lparr>day := 1 + b\<rparr>) 1 = first_of_next_month d"
    using d1 by (simp add: replace_day_def)
  ultimately show ?thesis by simp
qed

lemma requests_refl: "faults w = [] \<Longrightarrow> requests w w 0"
  by (simp add: requests_def)

lemma requests_trans:
  assumes "requests w w1 a" "requests w1 w2 b"
  shows "requests w w2 (a + b)"
proof -
  from assms(1) obtain o1 where o1: "remote w1 = remote w" "stdout w1 = stdout w @ o1"
    "length (filter is_request o1) = a"
    unfolding requests_def by (elim exE conjE)
  from assms(2) obtain o2 where o2: "faults w2 = []" "remote w2 = remote w1"
    "stdout w2 = stdout w1 @ o2" "length (filter is_request o2) = b"
    unfolding requests_def by (elim exE conjE)
  have "stdout w2 = stdout w @ (o1 @ o2)" using o1(2) o2(3) by simp
  moreover have "length (filter is_request (o1 @ o2)) = a + b" using o1(3) o2(4) by simp
  ultimately show ?thesis unfolding requests_def using o2(1,2) o1(1) by metis
qed

lemma download_file_requests:
  assumes "faults w = []" "remote w (base_url @ data_type @ ''_tripdata_''
             @ strftime_Y_m current_date @ ''.parquet'') = Inr r"
  shows "\<exists>w'. download_file current_date data_type w = (Inr (), w') \<and> requests w w' 1"
proof (cases "status_code r = 200")
  case True
  then show ?thesis using assms
    by (simp add: download_file_def requests_get_def makedirs_def write_file_def io_fault_def
          print_def requests_def Let_def)
next
  case False
  then show ?thesis using assms
    by (simp add: download_file_def requests_get_def makedirs_def write_file_def io_fault_def
          print_def requests_def Let_def)
qed

lemma for_data_types_requests:
  assumes "\<forall>url. \<exists>r. remote w url = Inr r"
  shows "faults w = [] \<Longrightarrow>
         \<exists>w'. for_data_types current_date data_types w = (Inr (), w')
              \<and> requests w w' (length data_types)"
  using assms
proof (induction data_types arbitrary: w)
  case Nil
  then show ?case by (simp add: requests_refl)
next
  case (Cons t ts)
  from Cons.prems(2) obtain r where "remote w (base_url @ t @ ''_tripdata_''
             @ strftime_Y_m current_date @ ''.parquet'') = Inr r" by blast
  from download_file_requests[OF Cons.prems(1) this]
  obtain w1 where w1: "download_file current_date t w = (Inr (), w1)" "requests w w1 1"
    by blast
  then have f1: "faults w1 = []" and r1: "\<forall>url. \<exists>r. remote w1 url = Inr r"
    using Cons.prems(2) by (simp_all add: requests_def)
  from Cons.IH[OF f1 r1]
  obtain w2 where w2: "for_data_types current_date ts w1 = (Inr (), w2)"
    "requests w1 w2 (length ts)" by blast
  show ?case using w1(1) w2(1) requests_trans[OF w1(2) w2(2)] by simp
qed

lemma months_step:
  assumes "datetime_le c e" "1 \<le> month c" "month c \<le> 12" "1 \<le> month e" "month e \<le> 12"
    "1 \<le> day e" "tod c \<le> tod e \<or> 1 < day e"
  shows "months_between c e =
           1 + (if datetime_le (first_of_next_month c) e
                then months_between (first_of_next_month c) e else 0)"
proof (cases "month c < 12")
  case True
  then show ?thesis using assms
    by (auto simp: months_between_def datetime_le_def first_of_next_month_def)
next
  case False
  then have "month c = 12" using assms(3) by simp
  then show ?thesis using assms
    by (auto simp: months_between_def datetime_le_def first_of_next_month_def)
qed

lemma download_loop_count:
  assumes "year end_date < 9999" "1 \<le> month end_date" "month end_date \<le> 12" "1 \<le> day end_date"
  shows "faults w = [] \<Longrightarrow> \<forall>url. \<exists>r. remote w url = Inr r \<Longrightarrow>
    1 \<le> day current_date \<Longrightarrow> day current_date \<le> 27 \<Longrightarrow>
    1 \<le> month current_date \<Longrightarrow> month current_date \<le> 12 \<Longrightarrow>
    tod current_date \<le> tod end_date \<or> 1 < day end_date \<Longrightarrow>
    \<exists>w'. download_loop current_date end_date data_types w = (Inr (), w')
       \<and> requests w w' ((if datetime_le current_date end_date
                          then months_between current_date end_date else 0) * length data_types)"
  using assms
proof (induction current_date end_date data_types w rule: download_loop.induct)
  case (1 current_date end_date data_types w)
  show ?case
  proof (cases "datetime_le current_date end_date")
    case False
    then show ?thesis using "1.prems"(1) by (simp add: requests_refl)
  next
    case True
    from for_data_types_requests[OF "1.prems"(2,1), of current_date data_types]
    obtain w1 where w1: "for_data_types current_date data_types w = (Inr (), w1)"
      "requests w w1 (length data_types)" by blast
    then have f1: "faults w1 = []" and r1: "\<forall>url. \<exists>r. remote w1 url = Inr r"
      using "1.prems"(2) by (simp_all add: requests_def)
    have "year current_date < 9999" using True "1.prems"(8) by (auto simp: datetime_le_def)
    from month_step[OF "1.prems"(3,4,5,6) this]
    obtain d where d: "add_days 32 current_date = Inr d"
      "replace_day d 1 = first_of_next_month current_date" by blast
    define c' where "c' = first_of_next_month current_date"
    have c': "1 \<le> day c'" "day c' \<le> 27" "1 \<le> month c'" "month c' \<le> 12"
      "tod c' \<le> tod end_date \<or> 1 < day end_date"
      using "1.prems"(5,6,7) by (auto simp: c'_def first_of_next_month_def)
    have "\<exists>w'. download_loop (replace_day d 1) end_date data_types w1 = (Inr (), w')
       \<and> requests w1 w' ((if datetime_le (replace_day d 1) end_date
                          then months_between (replace_day d 1) end_date else 0)
                          * length data_types)"
      using c' unfolding c'_def d(2)[symmetric]
      by (intro "1.IH"[OF True w1(1)[symmetric] refl d(1) f1 r1 _ _ _ _ _ "1.prems"(8,9,10,11)])
    then obtain w2 where w2:
      "download_loop c' end_date data_types w1 = (Inr (), w2)"
      "requests w1 w2 ((if datetime_le c' end_date then months_between c' end_date else 0)
                          * length data_types)"
      unfolding d(2) c'_def by blast
    have run: "download_loop current_date end_date data_types w = (Inr (), w2)"
      using True w1(1) d w2(1) by (subst download_loop.simps) (simp add: c'_def)
    have "months_between current_date end_date =
           1 + (if datetime_le c' end_date then months_between c' end_date else 0)"
      unfolding c'_def using True "1.prems"(5,6,9,10,11,7) by (rule months_step)
    then have "length data_types
        + (if datetime_le c' end_date then months_between c' end_date else 0) * length data_types
        = (if datetime_le current_date end_date
           then months_between current_date end_date else 0) * length data_types"
      using True by simp
    with requests_trans[OF w1(2) w2(2)] run show ?thesis by simp
  qed
qed

lemma enumeration_count_for_early_start_day:
  assumes "faults w = []" and "\<forall>url. \<exists>r. remote w url = Inr r"
    and "datetime_le start_date end_date"
    and "1 \<le> day start_date" and "day start_date \<le> 27"
    and "1 \<le> month start_date" and "month start_date \<le> 12"
    and "year end_date < 9999" and "1 \<le> month end_date" and "month end_date \<le> 12"
    and "1 \<le> day end_date" and "tod start_date \<le> tod end_date \<or> 1 < day end_date"
  shows "\<exists>w' out. download_nyc_taxi_data start_date end_date data_types w = (Inr (), w')
           \<and> stdout w' = stdout w @ out
           \<and> length (filter is_request out)
               = months_between start_date end_date * length data_types"
proof -
  from download_loop_count[OF assms(8,9,10,11) assms(1,2,4,5,6,7,12), of data_types]
  obtain w' where w': "download_loop start_date end_date data_types w = (Inr (), w')"
    "requests w w' ((if datetime_le start_date end_date
                     then months_between start_date end_date else 0) * length data_types)"
    by blast
  then show ?thesis using assms(3)
    unfolding requests_def download_nyc_taxi_data_def by auto
qed

section \<open>The download: claims\<close>

text \<open>
  Claim C3. The code steps by \<^verbatim>\<open>timedelta(days=32)\<close> and \<^verbatim>\<open>replace(day=1)\<close> from the
  start date as it is given. For the range from 2024-01-31 to 2024-03-31 and one category
  the claim counts three pairs; the code requests January and March only: 32 days after
  January 31st is March 3rd, and February is never visited.
\<close>

theorem late_start_day_skips_a_month:
  "datetime_le jan31 mar31
   \<and> months_between jan31 mar31 * length [''yellow''] = 3
   \<and> fst (download_nyc_taxi_data jan31 mar31 [''yellow''] online_world) = Inr ()
   \<and> stdout (snd (download_nyc_taxi_data jan31 mar31 [''yellow''] online_world)) =
       [Downloading ''yellow_tripdata_2024-01.parquet'',
        Downloaded ''yellow_tripdata_2024-01.parquet'',
        Downloading ''yellow_tripdata_2024-03.parquet'',
        Downloaded ''yellow_tripdata_2024-03.parquet'']"
  by (simp add: run_download online_world_def jan31_def mar31_def months_between_def)





text \<open>
  Claim C9, as stated, fails: nothing is validated. A range that ends before it starts
  makes the download return at once, normally; a negative limit lets the export write the
  first chunk (here, with the chunk size of the source, the whole table) and return
  normally.
\<close>

theorem invalid_configuration_is_not_rejected:
  "\<not> datetime_le mar31 jan01
   \<and> download_nyc_taxi_data mar31 jan01 [''yellow''] online_world = (Inr (), online_world)
   \<and> write_csv_with_size_limit chunk_size_default demo_df ''nyc_taxi_subset.csv'' (- 1) demo_world
       = Some (Inr (), demo_world\<lparr>files := [''nyc_taxi_subset.csv'' \<mapsto> csv_prefix demo_df 5],
                 logs := [ReachedLimit (mb 24), FinalSize (mb 24), RowsWritten 5 5]\<rparr>)"
  by (simp add: run_export chunk_size_default_def download_nyc_taxi_data_def datetime_le_def
        mar31_def jan01_def)

text \<open>
  Claim C9, amended. No configuration is rejected. For a start date after the end date the
  download performs no retrieval and no file-system call and returns normally, the world
  unchanged. For a limit that is not positive, the export of a table with rows (positive
  chunk row count, no file-system fault) writes the first chunk in full, reports the limit
  as reached, stops there and returns normally.
\<close>

theorem invalid_configuration_behaviour:
  "(\<not> datetime_le start_date end_date \<longrightarrow>
      download_nyc_taxi_data start_date end_date data_types w = (Inr (), w))
   \<and> (size_limit_mb \<le> 0 \<and> row_lines df \<noteq> [] \<and> 0 < chunk_size \<and> faults w = [] \<longrightarrow>
        write_csv_with_size_limit chunk_size df output_file size_limit_mb w =
           Some (Inr (), w\<lparr>files := (files w)(output_file \<mapsto>
                                  csv_prefix df (min chunk_size (len df))),
                   logs := logs w @
                     [ReachedLimit (mb (length (csv_prefix df (min chunk_size (len df))))),
                      FinalSize (mb (length (csv_prefix df (min chunk_size (len df))))),
                      RowsWritten (min chunk_size (len df)) (len df)]\<rparr>))"
  using export_nonpositive_limit[of size_limit_mb df chunk_size w output_file]
  by (simp add: download_nyc_taxi_data_def)

theorem invalid_configuration_behaviour_witness:
  "\<not> datetime_le mar31 jan01
   \<and> download_nyc_taxi_data mar31 jan01 [''yellow''] demo_world = (Inr (), demo_world)
   \<and> (0::rat) \<le> 0 \<and> row_lines demo_df \<noteq> [] \<and> 0 < (2::nat) \<and> faults demo_world = []
   \<and> write_csv_with_size_limit 2 demo_df ''out.csv'' 0 demo_world =
           Some (Inr (), demo_world\<lparr>files := (files demo_world)(''out.csv'' \<mapsto>
                                  csv_prefix demo_df (min 2 (len demo_df))),
                   logs := logs demo_world @
                     [ReachedLimit (mb (length (csv_prefix demo_df (min 2 (len demo_df))))),
                      FinalSize (mb (length (csv_prefix demo_df (min 2 (len demo_df))))),
                      RowsWritten (min 2 (len demo_df)) (len demo_df)]\<rparr>)"
proof -
  have h1: "\<not> datetime_le mar31 jan01" by (simp add: datetime_le_def mar31_def jan01_def)
  have h2: "(0::rat) \<le> 0 \<and> row_lines demo_df \<noteq> [] \<and> 0 < (2::nat) \<and> faults demo_world = []"
    by (simp add: demo_df_def demo_world_def)
  from invalid_configuration_behaviour[of mar31 jan01 "[''yellow'']" demo_world 0 demo_df 2
         "''out.csv''"] h1 h2
  show ?thesis by blast
qed

end
